theory Spec2Isabelle
  imports Complex_Main "HOL-Library.Product_Lexorder"
begin

section \<open>Data model of MazeSolver.py\<close>

text \<open>
  A maze is a list of rows; \<open>maze[y][x]\<close> is 1 for a wall and 0 for a passage.
  Coordinates are Python integers, written \<open>(x, y)\<close>.
\<close>

type_synonym coord = "int \<times> int"
type_synonym grid = "nat list list"

datatype error = IndexError | TypeError | ValueError

text \<open>Python list indexing: a negative index counts from the end, anything else out of
  range raises IndexError.\<close>

definition py_index :: "nat \<Rightarrow> int \<Rightarrow> nat option" where
  "py_index n i =
     (if 0 \<le> i \<and> i < int n then Some (nat i)
      else if i < 0 \<and> - int n \<le> i then Some (nat (int n + i))
      else None)"

definition py_get :: "'a list \<Rightarrow> int \<Rightarrow> error + 'a" where
  "py_get xs i = (case py_index (length xs) i of None \<Rightarrow> Inl IndexError | Some j \<Rightarrow> Inr (xs ! j))"

definition py_set :: "'a list \<Rightarrow> int \<Rightarrow> 'a \<Rightarrow> error + 'a list" where
  "py_set xs i v = (case py_index (length xs) i of None \<Rightarrow> Inl IndexError | Some j \<Rightarrow> Inr (xs[j := v]))"

text \<open>\<open>maze[y][x]\<close> and \<open>maze[y][x] = v\<close>.\<close>

definition get2 :: "grid \<Rightarrow> int \<Rightarrow> int \<Rightarrow> error + nat" where
  "get2 maze x y = (case py_get maze y of Inl e \<Rightarrow> Inl e | Inr row \<Rightarrow> py_get row x)"

definition set2 :: "grid \<Rightarrow> int \<Rightarrow> int \<Rightarrow> nat \<Rightarrow> error + grid" where
  "set2 maze x y v =
     (case py_get maze y of Inl e \<Rightarrow> Inl e
      | Inr row \<Rightarrow> (case py_set row x v of Inl e \<Rightarrow> Inl e | Inr row' \<Rightarrow> py_set maze y row'))"

section \<open>Maze generation\<close>

text \<open>
  The random source is the sequence of raw draws; \<open>random.choice\<close> on a non-empty list
  takes the element at the position the next draw selects. Every sequence of choices is
  some \<open>rng\<close>.
\<close>

type_synonym rng = "nat \<Rightarrow> nat"

definition choice :: "rng \<Rightarrow> nat \<Rightarrow> 'a list \<Rightarrow> 'a" where
  "choice r k xs = xs ! (r k mod length xs)"

text \<open>The scan of the four cells two steps away (lines 42-46).\<close>

fun scan :: "int \<Rightarrow> int \<Rightarrow> grid \<Rightarrow> coord \<Rightarrow> (int \<times> int) list \<Rightarrow> error + (int \<times> int \<times> int \<times> int) list" where
  "scan width height maze c [] = Inr []"
| "scan width height maze c (d # ds) =
     (let nx = fst c + fst d; ny = snd c + snd d in
      if 0 < nx \<and> nx < width \<and> 0 < ny \<and> ny < height then
        (case get2 maze nx ny of
           Inl e \<Rightarrow> Inl e
         | Inr v \<Rightarrow>
            (case scan width height maze c ds of
               Inl e \<Rightarrow> Inl e
             | Inr rest \<Rightarrow> Inr (if v = 1 then (nx, ny, fst d, snd d) # rest else rest)))
      else scan width height maze c ds)"

text \<open>One iteration of the \<open>while cell_list\<close> loop (lines 40-54). The state is the maze,
  the list of carved cells and the number of random draws made so far.\<close>

definition carve_step :: "int \<Rightarrow> int \<Rightarrow> rng \<Rightarrow> grid \<times> coord list \<times> nat \<Rightarrow> error + grid \<times> coord list \<times> nat" where
  "carve_step width height r st =
     (case st of (maze, cell_list, k) \<Rightarrow>
        (let c = choice r k cell_list in
         case scan width height maze c [(2, 0), (-2, 0), (0, 2), (0, -2)] of
           Inl e \<Rightarrow> Inl e
         | Inr neighbors \<Rightarrow>
             if neighbors \<noteq> [] then
               (case choice r (k + 1) neighbors of (nx, ny, dx, dy) \<Rightarrow>
                  (case set2 maze (fst c + dx div 2) (snd c + dy div 2) 0 of
                     Inl e \<Rightarrow> Inl e
                   | Inr maze1 \<Rightarrow>
                      (case set2 maze1 nx ny 0 of
                         Inl e \<Rightarrow> Inl e
                       | Inr maze2 \<Rightarrow> Inr (maze2, cell_list @ [(nx, ny)], k + 2))))
             else Inr (maze, remove1 c cell_list, k + 1)))"

definition walls :: "grid \<Rightarrow> nat" where
  "walls maze = sum_list (map (\<lambda>row. length (filter (\<lambda>v. v = 1) row)) maze)"

lemma py_index_lt: "py_index n i = Some j \<Longrightarrow> j < n"
  by (auto simp: py_index_def split: if_splits)

lemma walls_update:
  assumes "j < length maze"
  shows "walls (maze[j := row']) + length (filter (\<lambda>v. v = 1) (maze ! j))
         = walls maze + length (filter (\<lambda>v. v = 1) row')"
  using assms
proof (induction maze arbitrary: j)
  case Nil
  then show ?case by simp
next
  case (Cons a maze)
  then show ?case by (cases j) (auto simp: walls_def)
qed

lemma filter_update_zero:
  assumes "i < length row"
  shows "length (filter (\<lambda>v. v = 1) (row[i := (0::nat)])) + (if row ! i = 1 then 1 else 0)
         = length (filter (\<lambda>v. v = 1) row)"
  using assms
proof (induction row arbitrary: i)
  case Nil
  then show ?case by simp
next
  case (Cons a row)
  then show ?case by (cases i) auto
qed

lemma set2_walls:
  assumes "set2 maze x y 0 = Inr maze'" and "get2 maze x y = Inr v"
  shows "walls maze' + (if v = 1 then 1 else 0) = walls maze"
proof -
  from assms obtain j i where j: "py_index (length maze) y = Some j"
    and i: "py_index (length (maze ! j)) x = Some i"
    and m': "maze' = maze[j := (maze ! j)[i := 0]]" and v: "v = maze ! j ! i"
    by (auto simp: set2_def get2_def py_get_def py_set_def split: option.splits sum.splits)
  have jl: "j < length maze" and il: "i < length (maze ! j)"
    using j i by (auto dest: py_index_lt)
  show ?thesis
    using walls_update[OF jl, of "(maze ! j)[i := 0]"] filter_update_zero[OF il]
    by (simp add: m' v split: if_splits)
qed

lemma set2_get2_same:
  assumes "set2 maze x y v = Inr maze'"
  shows "\<exists>u. get2 maze x y = Inr u"
  using assms
  by (auto simp: set2_def get2_def py_get_def py_set_def split: option.splits sum.splits)

lemma set2_walls_le:
  assumes "set2 maze x y 0 = Inr maze'"
  shows "walls maze' \<le> walls maze"
proof -
  from set2_get2_same[OF assms] obtain u where "get2 maze x y = Inr u" by blast
  from set2_walls[OF assms this] show ?thesis by (simp split: if_splits)
qed

lemma get2_set2_other:
  assumes "set2 maze x y v = Inr maze'" and "0 \<le> x" "0 \<le> y" "0 \<le> x'" "0 \<le> y'"
    and "(x, y) \<noteq> (x', y')"
  shows "get2 maze' x' y' = get2 maze x' y'"
proof -
  from assms(1-3) have y: "y < int (length maze)" and x: "x < int (length (maze ! nat y))"
    and m': "maze' = maze[nat y := (maze ! nat y)[nat x := v]]"
    by (auto simp: set2_def py_get_def py_set_def py_index_def split: if_splits sum.splits)
  show ?thesis
  proof (cases "y' < int (length maze)")
    case False
    then show ?thesis using assms(5) by (simp add: get2_def py_get_def py_index_def m')
  next
    case True
    show ?thesis
    proof (cases "y' = y")
      case False
      then have "nat y' \<noteq> nat y" using assms(3,5) by simp
      then show ?thesis using True assms(5) by (simp add: get2_def py_get_def py_index_def m')
    next
      case yy: True
      then have "x' \<noteq> x" using assms(6) by simp
      then have "nat x' \<noteq> nat x" using assms(2,4) by simp
      then show ?thesis using True assms(4,5) yy y
        by (simp add: get2_def py_get_def py_index_def m')
    qed
  qed
qed

lemma scan_mem:
  assumes "scan width height maze c ds = Inr ns" and "(nx, ny, dx, dy) \<in> set ns"
  shows "(dx, dy) \<in> set ds \<and> nx = fst c + dx \<and> ny = snd c + dy \<and> 0 < nx \<and> nx < width
         \<and> 0 < ny \<and> ny < height \<and> get2 maze nx ny = Inr 1"
  using assms
proof (induction ds arbitrary: ns)
  case Nil
  then show ?case by simp
next
  case (Cons d ds)
  then show ?case
    by (auto simp: Let_def split: if_splits sum.splits)
qed

lemma choice_mem: "xs \<noteq> [] \<Longrightarrow> choice r k xs \<in> set xs"
  by (simp add: choice_def)

lemma carve_step_scan:
  assumes "carve_step width height r (maze, cell_list, k) = Inr st'"
  shows "\<exists>ns. scan width height maze (choice r k cell_list) [(2, 0), (-2, 0), (0, 2), (0, -2)] = Inr ns"
proof (cases "scan width height maze (choice r k cell_list) [(2, 0), (-2, 0), (0, 2), (0, -2)]")
  case (Inl e)
  with assms show ?thesis by (simp add: carve_step_def del: scan.simps)
next
  case (Inr ns)
  then show ?thesis by blast
qed

lemma carve_step_dead_end:
  assumes "scan width height maze (choice r k cell_list) [(2, 0), (-2, 0), (0, 2), (0, -2)] = Inr []"
  shows "carve_step width height r (maze, cell_list, k)
         = Inr (maze, remove1 (choice r k cell_list) cell_list, k + 1)"
  using assms by (simp add: carve_step_def del: scan.simps)

lemma carve_step_carve:
  assumes "scan width height maze (choice r k cell_list) [(2, 0), (-2, 0), (0, 2), (0, -2)] = Inr ns"
    and "ns \<noteq> []" and "choice r (k + 1) ns = (nx, ny, dx, dy)"
  shows "carve_step width height r (maze, cell_list, k)
         = (case set2 maze (fst (choice r k cell_list) + dx div 2) (snd (choice r k cell_list) + dy div 2) 0 of
              Inl e \<Rightarrow> Inl e
            | Inr maze1 \<Rightarrow>
               (case set2 maze1 nx ny 0 of
                  Inl e \<Rightarrow> Inl e
                | Inr maze2 \<Rightarrow> Inr (maze2, cell_list @ [(nx, ny)], k + 2)))"
  using assms by (simp add: carve_step_def Let_def del: scan.simps)

lemma carve_step_carve_result:
  assumes "scan width height maze (choice r k cell_list) [(2, 0), (-2, 0), (0, 2), (0, -2)] = Inr ns"
    and "ns \<noteq> []" and "choice r (k + 1) ns = (nx, ny, dx, dy)"
    and "carve_step width height r (maze, cell_list, k) = Inr (maze', cell_list', k')"
  shows "\<exists>maze1. set2 maze (fst (choice r k cell_list) + dx div 2) (snd (choice r k cell_list) + dy div 2) 0 = Inr maze1
           \<and> set2 maze1 nx ny 0 = Inr maze' \<and> cell_list' = cell_list @ [(nx, ny)] \<and> k' = k + 2"
  using assms(4) unfolding carve_step_carve[OF assms(1-3)]
  by (simp split: sum.splits)

lemma mid_cell_differs:
  assumes "(dx, dy) \<in> set [(2, 0), (-2, 0), (0, 2), (0, -2::int)]"
    and "nx = (x::int) + dx" "0 < nx" and "ny = (y::int) + dy" "0 < ny"
  shows "0 \<le> x + dx div 2 \<and> 0 \<le> y + dy div 2 \<and> (x + dx div 2, y + dy div 2) \<noteq> (nx, ny)"
proof -
  from assms(1) consider "dx = 2 \<and> dy = 0" | "dx = -2 \<and> dy = 0" | "dx = 0 \<and> dy = 2" | "dx = 0 \<and> dy = -2"
    by auto
  then show ?thesis
  proof cases
    case 1
    then show ?thesis using assms(2-5) by simp
  next
    case 2
    then show ?thesis using assms(2-5) by simp
  next
    case 3
    then show ?thesis using assms(2-5) by simp
  next
    case 4
    then show ?thesis using assms(2-5) by simp
  qed
qed

lemma carve_step_decreases:
  assumes "carve_step width height r (maze, cell_list, k) = Inr (maze', cell_list', k')"
    and "cell_list \<noteq> []"
  shows "2 * walls maze' + length cell_list' < 2 * walls maze + length cell_list"
proof -
  define c where "c = choice r k cell_list"
  from carve_step_scan[OF assms(1)] obtain ns
    where ns: "scan width height maze c [(2, 0), (-2, 0), (0, 2), (0, -2)] = Inr ns"
    unfolding c_def by blast
  show ?thesis
  proof (cases "ns = []")
    case True
    with assms(1) ns have "maze' = maze" "cell_list' = remove1 c cell_list"
      using carve_step_dead_end[of width height maze r k cell_list] by (simp_all add: c_def)
    moreover have "c \<in> set cell_list" unfolding c_def by (rule choice_mem[OF assms(2)])
    ultimately show ?thesis using length_pos_if_in_set[of c cell_list]
      by (simp add: length_remove1)
  next
    case False
    obtain nx ny dx dy where ch: "choice r (k + 1) ns = (nx, ny, dx, dy)"
      by (cases "choice r (k + 1) ns") auto
    from carve_step_carve_result[OF ns[unfolded c_def] False ch assms(1)] obtain maze1 where
      m1: "set2 maze (fst c + dx div 2) (snd c + dy div 2) 0 = Inr maze1"
      and m2: "set2 maze1 nx ny 0 = Inr maze'" and cl: "cell_list' = cell_list @ [(nx, ny)]"
      unfolding c_def by blast
    have "(nx, ny, dx, dy) \<in> set ns" using choice_mem[OF False, of r "k + 1"] ch by simp
    from scan_mem[OF ns this] have d: "(dx, dy) \<in> set [(2, 0), (-2, 0), (0, 2), (0, -2)]"
      and nx: "nx = fst c + dx" "0 < nx" and ny: "ny = snd c + dy" "0 < ny"
      and g: "get2 maze nx ny = Inr 1"
      by blast+
    from mid_cell_differs[OF d nx ny]
    have mid: "0 \<le> fst c + dx div 2" "0 \<le> snd c + dy div 2"
      "(fst c + dx div 2, snd c + dy div 2) \<noteq> (nx, ny)"
      by blast+
    have "get2 maze1 nx ny = get2 maze nx ny"
      using get2_set2_other[OF m1 mid(1,2) _ _ mid(3)] nx(2) ny(2) by simp
    with g have "get2 maze1 nx ny = Inr 1" by simp
    from set2_walls[OF m2 this] set2_walls_le[OF m1] show ?thesis by (simp add: cl)
  qed
qed

function carve :: "int \<Rightarrow> int \<Rightarrow> rng \<Rightarrow> grid \<times> coord list \<times> nat \<Rightarrow> error + grid" where
  "carve width height r st =
     (if fst (snd st) = [] then Inr (fst st)
      else (case carve_step width height r st of
              Inl e \<Rightarrow> Inl e
            | Inr st' \<Rightarrow> carve width height r st'))"
  by pat_completeness auto
termination
proof (relation "measure (\<lambda>(width, height, r, maze, cell_list, k). 2 * walls maze + length cell_list)")
  show "wf (measure (\<lambda>(width, height, r, maze, cell_list, k). 2 * walls maze + length cell_list))"
    by simp
next
  fix width height r and st st' :: "grid \<times> coord list \<times> nat"
  assume ne: "fst (snd st) \<noteq> []" and step: "carve_step width height r st = Inr st'"
  obtain maze cell_list k where st: "st = (maze, cell_list, k)" by (cases st) auto
  obtain maze' cell_list' k' where st': "st' = (maze', cell_list', k')" by (cases st') auto
  from carve_step_decreases[OF step[unfolded st st']] ne
  show "((width, height, r, st'), (width, height, r, st))
        \<in> measure (\<lambda>(width, height, r, maze, cell_list, k). 2 * walls maze + length cell_list)"
    by (simp add: st st')
qed

text \<open>\<open>generate_maze(width, height)\<close> (lines 17-55). \<open>range(n)\<close> is empty for \<open>n \<le> 0\<close>.\<close>

definition generate_maze :: "int \<Rightarrow> int \<Rightarrow> rng \<Rightarrow> error + grid" where
  "generate_maze width0 height0 r =
     (let width = (if width0 mod 2 = 0 then width0 + 1 else width0);
          height = (if height0 mod 2 = 0 then height0 + 1 else height0);
          maze = replicate (nat height) (replicate (nat width) (1::nat))
      in case set2 maze 1 1 0 of
           Inl e \<Rightarrow> Inl e
         | Inr maze1 \<Rightarrow> carve width height r (maze1, [(1, 1)], 0))"

section \<open>Application state\<close>

text \<open>
  \<open>search_nodes\<close> is one Python list that holds coordinates for BFS and DFS, pairs
  \<open>(cost, cell)\<close> for Dijkstra and triples \<open>(f, g, cell)\<close> for A*. For the two heaps the
  list holds the heap's items: \<open>heapq\<close>'s array layout is left out, since \<open>heappop\<close>
  returns the least item whatever the layout, and tuples compare lexicographically.
  \<open>parents\<close> maps a cell to its parent or to Python's \<open>None\<close> (the inner \<open>None\<close>).
  Clock readings (\<open>time.time()\<close>) are passed in as reals.
\<close>

datatype frontier =
    Cells "coord list"
  | Costs "(int \<times> coord) list"
  | FCosts "(int \<times> int \<times> coord) list"

record app =
  maze :: "grid option"
  start_point :: "coord option"
  end_point :: "coord option"
  solving :: bool
  paused :: bool
  search_start_time :: "real option"
  search_time :: real
  search_nodes :: frontier
  parents :: "coord \<Rightarrow> coord option option"
  distances :: "coord \<Rightarrow> int option"
  algorithm_var :: string
  selection_mode :: "string option"

text \<open>What a callback shows or schedules: \<open>Idle\<close> is the plain \<open>return\<close> when no search
  is running, \<open>Polling\<close> the 100 ms re-arm while paused, \<open>Visited\<close> the cells painted light
  blue before the next tick is scheduled, \<open>NoSolution\<close> and \<open>Solved\<close> the two message boxes
  (the latter with the cells painted yellow, in painting order), \<open>ShowError\<close> the error box.\<close>

datatype event =
    Idle
  | Polling
  | Visited "coord list"
  | NoSolution
  | Solved "coord list"
  | ShowError string

definition directions :: "(int \<times> int) list" where
  "directions = [(1, 0), (0, 1), (-1, 0), (0, -1)]"

text \<open>\<open>0 <= nx < len(self.maze[0]) and 0 <= ny < len(self.maze)\<close>, evaluated left to right.\<close>

definition in_bounds :: "grid option \<Rightarrow> coord \<Rightarrow> error + bool" where
  "in_bounds mz n =
     (if 0 \<le> fst n then
        (case mz of
           None \<Rightarrow> Inl TypeError
         | Some g \<Rightarrow>
            (case g of
               [] \<Rightarrow> Inl IndexError
             | row0 # _ \<Rightarrow> Inr (fst n < int (length row0) \<and> 0 \<le> snd n \<and> snd n < int (length g))))
      else Inr False)"

definition cell_at :: "grid option \<Rightarrow> coord \<Rightarrow> error + nat" where
  "cell_at mz n = (case mz of None \<Rightarrow> Inl TypeError | Some g \<Rightarrow> get2 g (fst n) (snd n))"

text \<open>The neighbour loop of \<open>animate_bfs\<close> and \<open>animate_dfs\<close> (lines 325-331 and 352-358),
  on the parent map, the frontier list and the cells painted so far.\<close>

fun discover :: "grid option \<Rightarrow> coord \<Rightarrow> (coord \<Rightarrow> coord option option) \<times> coord list \<times> coord list
                 \<Rightarrow> (int \<times> int) list
                 \<Rightarrow> error + (coord \<Rightarrow> coord option option) \<times> coord list \<times> coord list" where
  "discover mz cur acc [] = Inr acc"
| "discover mz cur acc (d # ds) =
     (let n = (fst cur + fst d, snd cur + snd d) in
      case in_bounds mz n of
        Inl e \<Rightarrow> Inl e
      | Inr inside \<Rightarrow>
          if inside then
            (case cell_at mz n of
               Inl e \<Rightarrow> Inl e
             | Inr v \<Rightarrow>
                 (case acc of (ps, q, seen) \<Rightarrow>
                    if v = 0 \<and> ps n = None
                    then discover mz cur (ps(n \<mapsto> Some cur), q @ [n], seen @ [n]) ds
                    else discover mz cur acc ds))
          else discover mz cur acc ds)"

text \<open>The neighbour loop of \<open>animate_dijkstra\<close> (lines 379-388).\<close>

fun relax :: "grid option \<Rightarrow> int \<Rightarrow> coord
              \<Rightarrow> (coord \<Rightarrow> int option) \<times> (coord \<Rightarrow> coord option option) \<times> (int \<times> coord) list \<times> coord list
              \<Rightarrow> (int \<times> int) list
              \<Rightarrow> error + (coord \<Rightarrow> int option) \<times> (coord \<Rightarrow> coord option option) \<times> (int \<times> coord) list \<times> coord list" where
  "relax mz cost cur acc [] = Inr acc"
| "relax mz cost cur acc (d # ds) =
     (let n = (fst cur + fst d, snd cur + snd d) in
      case in_bounds mz n of
        Inl e \<Rightarrow> Inl e
      | Inr inside \<Rightarrow>
          if inside then
            (case cell_at mz n of
               Inl e \<Rightarrow> Inl e
             | Inr v \<Rightarrow>
                 if v = 0 then
                   (case acc of (dm, ps, h, seen) \<Rightarrow>
                      (let new_cost = cost + 1 in
                       if (case dm n of None \<Rightarrow> True | Some old \<Rightarrow> new_cost < old)
                       then relax mz cost cur
                              (dm(n \<mapsto> new_cost), ps(n \<mapsto> Some cur), h @ [(new_cost, n)], seen @ [n]) ds
                       else relax mz cost cur acc ds))
                 else relax mz cost cur acc ds)
          else relax mz cost cur acc ds)"

text \<open>The neighbour loop of \<open>animate_astar\<close> (lines 409-420); \<open>self.end_point[0]\<close> raises
  TypeError when no end point is set.\<close>

fun relax_astar :: "grid option \<Rightarrow> coord option \<Rightarrow> int \<Rightarrow> coord
              \<Rightarrow> (coord \<Rightarrow> int option) \<times> (coord \<Rightarrow> coord option option) \<times> (int \<times> int \<times> coord) list \<times> coord list
              \<Rightarrow> (int \<times> int) list
              \<Rightarrow> error + (coord \<Rightarrow> int option) \<times> (coord \<Rightarrow> coord option option) \<times> (int \<times> int \<times> coord) list \<times> coord list" where
  "relax_astar mz goal g cur acc [] = Inr acc"
| "relax_astar mz goal g cur acc (d # ds) =
     (let n = (fst cur + fst d, snd cur + snd d) in
      case in_bounds mz n of
        Inl e \<Rightarrow> Inl e
      | Inr inside \<Rightarrow>
          if inside then
            (case cell_at mz n of
               Inl e \<Rightarrow> Inl e
             | Inr v \<Rightarrow>
                 if v = 0 then
                   (case goal of
                      None \<Rightarrow> Inl TypeError
                    | Some e \<Rightarrow>
                      (case acc of (dm, ps, h, seen) \<Rightarrow>
                        (let new_g = g + 1;
                             hv = \<bar>fst n - fst e\<bar> + \<bar>snd n - snd e\<bar>;
                             new_f = new_g + hv in
                         if (case dm n of None \<Rightarrow> True | Some old \<Rightarrow> new_g < old)
                         then relax_astar mz goal g cur
                                (dm(n \<mapsto> new_g), ps(n \<mapsto> Some cur), h @ [(new_f, new_g, n)], seen @ [n]) ds
                         else relax_astar mz goal g cur acc ds)))
                 else relax_astar mz goal g cur acc ds)
          else relax_astar mz goal g cur acc ds)"

text \<open>\<open>heapq.heappop\<close> on a non-empty heap \<open>e # es\<close>: the least item, and the remaining items.\<close>

definition least :: "'a::linorder \<Rightarrow> 'a list \<Rightarrow> 'a" where
  "least e es = fold min es e"

definition heappop :: "'a::linorder \<Rightarrow> 'a list \<Rightarrow> 'a \<times> 'a list" where
  "heappop e es = (let m = least e es in (m, remove1 m (e # es)))"

text \<open>\<open>draw_solution_path\<close> (lines 423-432): the \<open>while cur is not None\<close> loop, which need
  not end on an arbitrary parent map; \<open>None\<close> is the loop that never returns.\<close>

partial_function (option) walk_back ::
  "(coord \<Rightarrow> coord option option) \<Rightarrow> coord option \<Rightarrow> coord list \<Rightarrow> coord list option" where
  "walk_back ps cur path =
     (case cur of
        None \<Rightarrow> Some path
      | Some c \<Rightarrow> walk_back ps (case ps c of None \<Rightarrow> None | Some v \<Rightarrow> v) (path @ [c]))"

declare walk_back.simps [code]

definition draw_solution_path :: "app \<Rightarrow> coord list option" where
  "draw_solution_path s = walk_back (parents s) (end_point s) []"

text \<open>The goal branch shared by the four animation callbacks (e.g. lines 319-324).\<close>

definition finish :: "real \<Rightarrow> app \<Rightarrow> (error + event \<times> app) option" where
  "finish now s =
     (case search_start_time s of
        None \<Rightarrow> Some (Inl TypeError)
      | Some t0 \<Rightarrow>
         (let s' = s\<lparr>solving := False, search_time := now - t0\<rparr> in
          case draw_solution_path s' of
            None \<Rightarrow> None
          | Some path \<Rightarrow> Some (Inr (Solved path, s'))))"

definition animate_bfs :: "real \<Rightarrow> app \<Rightarrow> (error + event \<times> app) option" where
  "animate_bfs now s =
     (if \<not> solving s then Some (Inr (Idle, s))
      else if paused s then Some (Inr (Polling, s))
      else (case search_nodes s of
              Cells [] \<Rightarrow> Some (Inr (NoSolution, s\<lparr>solving := False\<rparr>))
            | Costs [] \<Rightarrow> Some (Inr (NoSolution, s\<lparr>solving := False\<rparr>))
            | FCosts [] \<Rightarrow> Some (Inr (NoSolution, s\<lparr>solving := False\<rparr>))
            | Cells (current # rest) \<Rightarrow>
                if Some current = end_point s then finish now (s\<lparr>search_nodes := Cells rest\<rparr>)
                else (case discover (maze s) current (parents s, rest, []) directions of
                        Inl e \<Rightarrow> Some (Inl e)
                      | Inr (ps, q, seen) \<Rightarrow>
                          Some (Inr (Visited seen, s\<lparr>search_nodes := Cells q, parents := ps\<rparr>)))
            | Costs (e # es) \<Rightarrow> Some (Inl TypeError)
            | FCosts (e # es) \<Rightarrow> Some (Inl ValueError)))"

definition animate_dfs :: "real \<Rightarrow> app \<Rightarrow> (error + event \<times> app) option" where
  "animate_dfs now s =
     (if \<not> solving s then Some (Inr (Idle, s))
      else if paused s then Some (Inr (Polling, s))
      else (case search_nodes s of
              Cells [] \<Rightarrow> Some (Inr (NoSolution, s\<lparr>solving := False\<rparr>))
            | Costs [] \<Rightarrow> Some (Inr (NoSolution, s\<lparr>solving := False\<rparr>))
            | FCosts [] \<Rightarrow> Some (Inr (NoSolution, s\<lparr>solving := False\<rparr>))
            | Cells (c # cs) \<Rightarrow>
                (let current = last (c # cs); rest = butlast (c # cs) in
                 if Some current = end_point s then finish now (s\<lparr>search_nodes := Cells rest\<rparr>)
                 else (case discover (maze s) current (parents s, rest, []) directions of
                         Inl e \<Rightarrow> Some (Inl e)
                       | Inr (ps, q, seen) \<Rightarrow>
                           Some (Inr (Visited seen, s\<lparr>search_nodes := Cells q, parents := ps\<rparr>))))
            | Costs (e # es) \<Rightarrow> Some (Inl TypeError)
            | FCosts (e # es) \<Rightarrow> Some (Inl ValueError)))"

definition animate_dijkstra :: "real \<Rightarrow> app \<Rightarrow> (error + event \<times> app) option" where
  "animate_dijkstra now s =
     (if \<not> solving s then Some (Inr (Idle, s))
      else if paused s then Some (Inr (Polling, s))
      else (case search_nodes s of
              Cells [] \<Rightarrow> Some (Inr (NoSolution, s\<lparr>solving := False\<rparr>))
            | Costs [] \<Rightarrow> Some (Inr (NoSolution, s\<lparr>solving := False\<rparr>))
            | FCosts [] \<Rightarrow> Some (Inr (NoSolution, s\<lparr>solving := False\<rparr>))
            | Costs (e # es) \<Rightarrow>
                (case heappop e es of ((cost, current), rest) \<Rightarrow>
                   if Some current = end_point s then finish now (s\<lparr>search_nodes := Costs rest\<rparr>)
                   else (case relax (maze s) cost current (distances s, parents s, rest, []) directions of
                           Inl e \<Rightarrow> Some (Inl e)
                         | Inr (dm, ps, h, seen) \<Rightarrow>
                             Some (Inr (Visited seen,
                                        s\<lparr>search_nodes := Costs h, parents := ps, distances := dm\<rparr>))))
            | Cells (c # cs) \<Rightarrow> Some (Inl TypeError)
            | FCosts (e # es) \<Rightarrow> Some (Inl ValueError)))"

definition animate_astar :: "real \<Rightarrow> app \<Rightarrow> (error + event \<times> app) option" where
  "animate_astar now s =
     (if \<not> solving s then Some (Inr (Idle, s))
      else if paused s then Some (Inr (Polling, s))
      else (case search_nodes s of
              Cells [] \<Rightarrow> Some (Inr (NoSolution, s\<lparr>solving := False\<rparr>))
            | Costs [] \<Rightarrow> Some (Inr (NoSolution, s\<lparr>solving := False\<rparr>))
            | FCosts [] \<Rightarrow> Some (Inr (NoSolution, s\<lparr>solving := False\<rparr>))
            | FCosts (e # es) \<Rightarrow>
                (case heappop e es of ((f, g, current), rest) \<Rightarrow>
                   if Some current = end_point s then finish now (s\<lparr>search_nodes := FCosts rest\<rparr>)
                   else (case relax_astar (maze s) (end_point s) g current
                                (distances s, parents s, rest, []) directions of
                           Inl e \<Rightarrow> Some (Inl e)
                         | Inr (dm, ps, h, seen) \<Rightarrow>
                             Some (Inr (Visited seen,
                                        s\<lparr>search_nodes := FCosts h, parents := ps, distances := dm\<rparr>))))
            | Cells (c # cs) \<Rightarrow> Some (Inl ValueError)
            | Costs (e # es) \<Rightarrow> Some (Inl ValueError)))"

section \<open>User interface callbacks\<close>

definition toggle_pause :: "app \<Rightarrow> app" where
  "toggle_pause s = s\<lparr>paused := \<not> paused s\<rparr>"

definition on_select_start :: "app \<Rightarrow> app" where
  "on_select_start s = s\<lparr>selection_mode := Some ''start''\<rparr>"

definition on_select_end :: "app \<Rightarrow> app" where
  "on_select_end s = s\<lparr>selection_mode := Some ''end''\<rparr>"

text \<open>\<open>on_canvas_click\<close> (lines 173-187), with the clicked cell \<open>(x, y)\<close> already computed
  from the pixel position (lines 176-178).\<close>

definition on_canvas_click :: "int \<Rightarrow> int \<Rightarrow> app \<Rightarrow> error + app" where
  "on_canvas_click x y s =
     (case maze s of
        None \<Rightarrow> Inr s
      | Some g \<Rightarrow>
         (case get2 g x y of
            Inl e \<Rightarrow> Inl e
          | Inr v \<Rightarrow>
             if v \<noteq> 0 then Inr s
             else (case selection_mode s of
                     None \<Rightarrow> Inr s
                   | Some m \<Rightarrow>
                       Inr ((if m = ''start'' then s\<lparr>start_point := Some (x, y)\<rparr>
                             else if m = ''end'' then s\<lparr>end_point := Some (x, y)\<rparr>
                             else s)\<lparr>selection_mode := None\<rparr>))))"

text \<open>The reset of the search state in \<open>on_solve_maze\<close> (lines 197-212), for the start
  cell \<open>st\<close> and the clock reading \<open>now\<close>.\<close>

definition begin_search :: "real \<Rightarrow> coord \<Rightarrow> app \<Rightarrow> app" where
  "begin_search now st s =
     (let algo = algorithm_var s;
          s1 = s\<lparr>solving := True, search_start_time := Some now, parents := Map.empty,
                 search_nodes := Cells [], distances := Map.empty\<rparr>;
          s2 = (if algo = ''Dijkstra''
                then s1\<lparr>distances := [st \<mapsto> 0], search_nodes := Costs [(0, st)]\<rparr>
                else if algo = ''A*''
                then s1\<lparr>distances := [st \<mapsto> 0], search_nodes := FCosts [(0, 0, st)]\<rparr>
                else s1\<lparr>search_nodes := Cells [st]\<rparr>)
      in s2\<lparr>parents := [st \<mapsto> None]\<rparr>)"

text \<open>The callback that \<open>on_solve_maze\<close> starts for the selected algorithm (lines 214-223).\<close>

definition animate :: "string \<Rightarrow> real \<Rightarrow> app \<Rightarrow> (error + event \<times> app) option" where
  "animate algo =
     (if algo = ''BFS'' then animate_bfs
      else if algo = ''DFS'' then animate_dfs
      else if algo = ''Dijkstra'' then animate_dijkstra
      else if algo = ''A*'' then animate_astar
      else animate_bfs)"

text \<open>\<open>on_solve_maze\<close> (lines 189-223); \<open>now\<close> is the clock at line 199, \<open>now'\<close> the clock
  the first animation step may read.\<close>

definition on_solve_maze :: "real \<Rightarrow> real \<Rightarrow> app \<Rightarrow> (error + event \<times> app) option" where
  "on_solve_maze now now' s =
     (if maze s = None then Some (Inr (ShowError ''Generate a maze first!'', s))
      else (case start_point s of
              None \<Rightarrow> Some (Inr (ShowError ''Please select both start and end points!'', s))
            | Some st \<Rightarrow>
               if end_point s = None
               then Some (Inr (ShowError ''Please select both start and end points!'', s))
               else animate (algorithm_var s) now' (begin_search now st s)))"

text \<open>\<open>on_generate_maze\<close> (lines 151-163) with the random source as a parameter.\<close>

definition on_generate_maze :: "int \<Rightarrow> int \<Rightarrow> rng \<Rightarrow> app \<Rightarrow> error + app" where
  "on_generate_maze width height r s =
     (case generate_maze width height r of
        Inl e \<Rightarrow> Inl e
      | Inr g \<Rightarrow>
          Inr (s\<lparr>maze := Some g, start_point := None, end_point := None, solving := False,
                 search_time := 0, search_start_time := None, parents := Map.empty,
                 search_nodes := Cells [], distances := Map.empty\<rparr>))"

text \<open>
  The event loop: a sequence of clock ticks at which the armed animation callback runs, with
  presses of the pause button in between. A tick after the callback has stopped re-arming
  itself is the callback's own early return, so the loop is plain iteration.
\<close>

datatype action = Tick real | TogglePause

fun run :: "(real \<Rightarrow> app \<Rightarrow> (error + event \<times> app) option) \<Rightarrow> action list \<Rightarrow> app
            \<Rightarrow> (error + event list \<times> app) option" where
  "run tick [] s = Some (Inr ([], s))"
| "run tick (TogglePause # as) s = run tick as (toggle_pause s)"
| "run tick (Tick now # as) s =
     (case tick now s of
        None \<Rightarrow> None
      | Some (Inl e) \<Rightarrow> Some (Inl e)
      | Some (Inr (ev, s')) \<Rightarrow>
          (case run tick as s' of
             None \<Rightarrow> None
           | Some (Inl e) \<Rightarrow> Some (Inl e)
           | Some (Inr (evs, s'')) \<Rightarrow> Some (Inr (ev # evs, s''))))"

section \<open>Grids, passages and paths\<close>

definition wf_grid :: "grid \<Rightarrow> bool" where
  "wf_grid g = (g \<noteq> [] \<and> list_all (\<lambda>row. length row = length (hd g)) g)"

definition passage :: "grid \<Rightarrow> coord \<Rightarrow> bool" where
  "passage g c =
     (0 \<le> fst c \<and> fst c < int (length (hd g)) \<and> 0 \<le> snd c \<and> snd c < int (length g)
      \<and> g ! nat (snd c) ! nat (fst c) = 0)"

definition adjacent :: "coord \<Rightarrow> coord \<Rightarrow> bool" where
  "adjacent a b = (\<bar>fst a - fst b\<bar> + \<bar>snd a - snd b\<bar> = 1)"

text \<open>A 4-connected passage path: every cell a passage, consecutive cells adjacent.\<close>

fun is_path :: "grid \<Rightarrow> coord list \<Rightarrow> bool" where
  "is_path g [] = False"
| "is_path g [a] = passage g a"
| "is_path g (a # b # cs) = (passage g a \<and> adjacent a b \<and> is_path g (b # cs))"

definition path_between :: "grid \<Rightarrow> coord \<Rightarrow> coord \<Rightarrow> coord list \<Rightarrow> bool" where
  "path_between g a b p = (is_path g p \<and> hd p = a \<and> last p = b)"

section \<open>Basic facts about the animation callbacks\<close>

text \<open>The possible shapes of one callback run that returns normally.\<close>

definition tick_shape :: "app \<Rightarrow> event \<Rightarrow> app \<Rightarrow> bool" where
  "tick_shape s ev s' =
     ((ev = Idle \<and> s' = s \<and> \<not> solving s)
      \<or> (ev = Polling \<and> s' = s \<and> solving s \<and> paused s)
      \<or> (ev = NoSolution \<and> s' = s\<lparr>solving := False\<rparr> \<and> solving s \<and> \<not> paused s)
      \<or> ((\<exists>p. ev = Solved p) \<and> \<not> solving s' \<and> paused s' = paused s \<and> solving s \<and> \<not> paused s)
      \<or> ((\<exists>seen. ev = Visited seen) \<and> solving s' \<and> paused s' = paused s \<and> solving s \<and> \<not> paused s))"

lemma finish_result:
  assumes "finish now s = Some (Inr (ev, s'))"
  shows "\<not> solving s' \<and> paused s' = paused s \<and> (\<exists>p. ev = Solved p)"
  using assms by (auto simp: finish_def Let_def split: option.splits)

lemma animate_bfs_idle: "\<not> solving s \<Longrightarrow> animate_bfs now s = Some (Inr (Idle, s))"
  by (simp add: animate_bfs_def)

lemma animate_bfs_polling:
  "solving s \<Longrightarrow> paused s \<Longrightarrow> animate_bfs now s = Some (Inr (Polling, s))"
  by (simp add: animate_bfs_def)

lemma animate_bfs_cases:
  assumes "animate_bfs now s = Some (Inr (ev, s'))"
  shows "tick_shape s ev s'"
proof (cases "solving s")
  case False
  with assms show ?thesis by (simp add: animate_bfs_def tick_shape_def)
next
  case sol: True
  show ?thesis
  proof (cases "paused s")
    case True
    with assms sol show ?thesis by (simp add: animate_bfs_def tick_shape_def)
  next
    case False
    with assms sol show ?thesis
      by (auto simp: animate_bfs_def tick_shape_def Let_def
          simp del: discover.simps relax.simps relax_astar.simps dest!: finish_result
          split: frontier.splits list.splits if_splits sum.splits prod.splits)
  qed
qed

lemma animate_dfs_idle: "\<not> solving s \<Longrightarrow> animate_dfs now s = Some (Inr (Idle, s))"
  by (simp add: animate_dfs_def)

lemma animate_dfs_polling:
  "solving s \<Longrightarrow> paused s \<Longrightarrow> animate_dfs now s = Some (Inr (Polling, s))"
  by (simp add: animate_dfs_def)

lemma animate_dfs_cases:
  assumes "animate_dfs now s = Some (Inr (ev, s'))"
  shows "tick_shape s ev s'"
proof (cases "solving s")
  case False
  with assms show ?thesis by (simp add: animate_dfs_def tick_shape_def)
next
  case sol: True
  show ?thesis
  proof (cases "paused s")
    case True
    with assms sol show ?thesis by (simp add: animate_dfs_def tick_shape_def)
  next
    case False
    with assms sol show ?thesis
      by (auto simp: animate_dfs_def tick_shape_def Let_def
          simp del: discover.simps relax.simps relax_astar.simps dest!: finish_result
          split: frontier.splits list.splits if_splits sum.splits prod.splits)
  qed
qed

lemma animate_dijkstra_idle: "\<not> solving s \<Longrightarrow> animate_dijkstra now s = Some (Inr (Idle, s))"
  by (simp add: animate_dijkstra_def)

lemma animate_dijkstra_polling:
  "solving s \<Longrightarrow> paused s \<Longrightarrow> animate_dijkstra now s = Some (Inr (Polling, s))"
  by (simp add: animate_dijkstra_def)

lemma animate_dijkstra_cases:
  assumes "animate_dijkstra now s = Some (Inr (ev, s'))"
  shows "tick_shape s ev s'"
proof (cases "solving s")
  case False
  with assms show ?thesis by (simp add: animate_dijkstra_def tick_shape_def)
next
  case sol: True
  show ?thesis
  proof (cases "paused s")
    case True
    with assms sol show ?thesis by (simp add: animate_dijkstra_def tick_shape_def)
  next
    case False
    with assms sol show ?thesis
      by (auto simp: animate_dijkstra_def tick_shape_def Let_def
          simp del: discover.simps relax.simps relax_astar.simps dest!: finish_result
          split: frontier.splits list.splits if_splits sum.splits prod.splits)
  qed
qed

lemma animate_astar_idle: "\<not> solving s \<Longrightarrow> animate_astar now s = Some (Inr (Idle, s))"
  by (simp add: animate_astar_def)

lemma animate_astar_polling:
  "solving s \<Longrightarrow> paused s \<Longrightarrow> animate_astar now s = Some (Inr (Polling, s))"
  by (simp add: animate_astar_def)

lemma animate_astar_cases:
  assumes "animate_astar now s = Some (Inr (ev, s'))"
  shows "tick_shape s ev s'"
proof (cases "solving s")
  case False
  with assms show ?thesis by (simp add: animate_astar_def tick_shape_def)
next
  case sol: True
  show ?thesis
  proof (cases "paused s")
    case True
    with assms sol show ?thesis by (simp add: animate_astar_def tick_shape_def)
  next
    case False
    with assms sol show ?thesis
      by (auto simp: animate_astar_def tick_shape_def Let_def
          simp del: discover.simps relax.simps relax_astar.simps dest!: finish_result
          split: frontier.splits list.splits if_splits sum.splits prod.splits)
  qed
qed

lemma animate_four:
  "animate algo = animate_bfs \<or> animate algo = animate_dfs
   \<or> animate algo = animate_dijkstra \<or> animate algo = animate_astar"
  by (simp add: animate_def)

lemma animate_idle: "\<not> solving s \<Longrightarrow> animate algo now s = Some (Inr (Idle, s))"
  using animate_four[of algo]
  by (auto simp: animate_bfs_idle animate_dfs_idle animate_dijkstra_idle animate_astar_idle)

lemma animate_polling: "solving s \<Longrightarrow> paused s \<Longrightarrow> animate algo now s = Some (Inr (Polling, s))"
  using animate_four[of algo]
  by (auto simp: animate_bfs_polling animate_dfs_polling animate_dijkstra_polling
      animate_astar_polling)

lemma animate_cases:
  assumes "animate algo now s = Some (Inr (ev, s'))"
  shows "tick_shape s ev s'"
  using animate_four[of algo] assms
  by (auto dest: animate_bfs_cases animate_dfs_cases animate_dijkstra_cases animate_astar_cases)

section \<open>Fixtures\<close>

text \<open>The 5x5 grid with the single corridor (1,1), (1,2), (1,3), and a 5x5 grid whose two
  passage cells (1,1) and (3,3) are walled off from each other.\<close>

definition corridor :: grid where
  "corridor = [[1, 1, 1, 1, 1], [1, 0, 1, 1, 1], [1, 0, 1, 1, 1], [1, 0, 1, 1, 1], [1, 1, 1, 1, 1]]"

definition islands :: grid where
  "islands = [[1, 1, 1, 1, 1], [1, 0, 1, 1, 1], [1, 1, 1, 1, 1], [1, 1, 1, 0, 1], [1, 1, 1, 1, 1]]"

text \<open>The application once a maze is shown and both end points are chosen.\<close>

definition ready :: "grid \<Rightarrow> coord \<Rightarrow> coord \<Rightarrow> string \<Rightarrow> app" where
  "ready g st e algo =
     \<lparr>maze = Some g, start_point = Some st, end_point = Some e, solving = False, paused = False,
      search_start_time = None, search_time = 0, search_nodes = Cells [], parents = Map.empty,
      distances = Map.empty, algorithm_var = algo, selection_mode = None\<rparr>"

text \<open>What a run leaves behind: the final state, and the events other than the idle and
  polling returns.\<close>

definition final_state :: "(error + event list \<times> app) option \<Rightarrow> (error + app) option" where
  "final_state r = map_option (map_sum id snd) r"

definition painted :: "(error + event list \<times> app) option \<Rightarrow> (error + event list) option" where
  "painted r = map_option (map_sum id (\<lambda>p. filter (\<lambda>e. e \<noteq> Idle \<and> e \<noteq> Polling) (fst p))) r"

section \<open>Terminal states and pausing\<close>

lemma run_idle:
  "\<not> solving s \<Longrightarrow> run (animate algo) (map Tick ts) s = Some (Inr (replicate (length ts) Idle, s))"
  by (induction ts) (simp_all add: animate_idle)

lemma run_polling:
  "solving s \<Longrightarrow> paused s
   \<Longrightarrow> run (animate algo) (map Tick ts) s = Some (Inr (replicate (length ts) Polling, s))"
  by (induction ts) (simp_all add: animate_polling)

lemma run_append:
  "run tick (as @ bs) s =
     (case run tick as s of
        None \<Rightarrow> None
      | Some (Inl e) \<Rightarrow> Some (Inl e)
      | Some (Inr (evs, s')) \<Rightarrow>
          (case run tick bs s' of
             None \<Rightarrow> None
           | Some (Inl e) \<Rightarrow> Some (Inl e)
           | Some (Inr (evs', s'')) \<Rightarrow> Some (Inr (evs @ evs', s''))))"
proof (induction as arbitrary: s)
  case Nil
  show ?case by (simp split: option.splits sum.splits prod.splits)
next
  case (Cons a as)
  show ?case
  proof (cases a)
    case TogglePause
    then show ?thesis using Cons.IH by simp
  next
    case (Tick now)
    then show ?thesis using Cons.IH
      by (simp split: option.splits sum.splits prod.splits)
  qed
qed

lemma run_ticks_paused:
  assumes "run (animate algo) (map Tick ts) s = Some (Inr (evs, s'))"
  shows "paused s' = paused s"
  using assms
proof (induction ts arbitrary: s evs)
  case Nil
  then show ?case by simp
next
  case (Cons t ts)
  from Cons.prems obtain ev s1 evs1 where
    t: "animate algo t s = Some (Inr (ev, s1))"
    and r: "run (animate algo) (map Tick ts) s1 = Some (Inr (evs1, s'))"
    by (auto split: option.splits sum.splits prod.splits)
  from animate_cases[OF t] have "paused s1 = paused s"
    by (auto simp: tick_shape_def)
  with Cons.IH[OF r] show ?case by simp
qed

lemma pause_block:
  assumes "\<not> paused s"
  shows "\<exists>evs. run (animate algo) (TogglePause # map Tick ps @ [TogglePause]) s = Some (Inr (evs, s))
          \<and> filter (\<lambda>e. e \<noteq> Idle \<and> e \<noteq> Polling) evs = []"
proof -
  define sp where "sp = toggle_pause s"
  have p: "paused sp" and undo: "toggle_pause sp = s"
    using assms by (simp_all add: sp_def toggle_pause_def)
  have "\<exists>evs. run (animate algo) (map Tick ps) sp = Some (Inr (evs, sp))
          \<and> filter (\<lambda>e. e \<noteq> Idle \<and> e \<noteq> Polling) evs = []"
  proof (cases "solving sp")
    case True
    from run_polling[OF True p, of algo ps] show ?thesis by simp
  next
    case False
    from run_idle[OF False, of algo ps] show ?thesis by simp
  qed
  then obtain evs where "run (animate algo) (map Tick ps) sp = Some (Inr (evs, sp))"
    and "filter (\<lambda>e. e \<noteq> Idle \<and> e \<noteq> Polling) evs = []"
    by blast
  then show ?thesis
    by (simp add: run_append sp_def[symmetric] undo)
qed

lemma run_skip_none:
  assumes "run tick as s = None"
  shows "final_state (run tick (as @ bs @ cs) s) = final_state (run tick (as @ cs) s)
         \<and> painted (run tick (as @ bs @ cs) s) = painted (run tick (as @ cs) s)"
  using assms by (simp add: run_append[of tick as])

lemma run_skip_error:
  assumes "run tick as s = Some (Inl e)"
  shows "final_state (run tick (as @ bs @ cs) s) = final_state (run tick (as @ cs) s)
         \<and> painted (run tick (as @ bs @ cs) s) = painted (run tick (as @ cs) s)"
  using assms by (simp add: run_append[of tick as])

lemma run_skip:
  assumes "run tick as s = Some (Inr (evs1, s1))"
    and "run tick bs s1 = Some (Inr (evsp, s1))"
    and "filter (\<lambda>e. e \<noteq> Idle \<and> e \<noteq> Polling) evsp = []"
  shows "final_state (run tick (as @ bs @ cs) s) = final_state (run tick (as @ cs) s)
         \<and> painted (run tick (as @ bs @ cs) s) = painted (run tick (as @ cs) s)"
  using assms
  by (simp add: run_append[of tick as] run_append[of tick bs] final_state_def painted_def
      split: option.splits sum.splits prod.splits)

text \<open>
  C6 (amended). Once a callback has shown "No path found!" or "Maze solved!", any number of
  further ticks of the four callbacks return at once: no error, no message, and the state
  (frontier, parent map, distance map, the \<open>solving\<close> flag, the time fields) is unchanged.
  The further ticks are silent; they do not repeat the terminal message.
\<close>

theorem terminal_step_noop:
  assumes "animate algo now s = Some (Inr (ev, s'))" and "ev = NoSolution \<or> ev = Solved p"
  shows "run (animate algo) (map Tick ts) s' = Some (Inr (replicate (length ts) Idle, s'))"
proof -
  from animate_cases[OF assms(1)] assms(2) have "\<not> solving s'"
    by (auto simp: tick_shape_def)
  then show ?thesis by (rule run_idle)
qed

theorem terminal_step_noop_witness:
  "animate ''BFS'' 2 ((ready islands (1, 1) (3, 3) ''BFS'')\<lparr>solving := True\<rparr>)
     = Some (Inr (NoSolution, ready islands (1, 1) (3, 3) ''BFS''))
   \<and> run (animate ''BFS'') (map Tick [3, 4]) (ready islands (1, 1) (3, 3) ''BFS'')
     = Some (Inr ([Idle, Idle], ready islands (1, 1) (3, 3) ''BFS''))"
proof -
  have t: "animate ''BFS'' 2 ((ready islands (1, 1) (3, 3) ''BFS'')\<lparr>solving := True\<rparr>)
     = Some (Inr (NoSolution, ready islands (1, 1) (3, 3) ''BFS''))"
    by (simp add: animate_def animate_bfs_def ready_def)
  from terminal_step_noop[OF t, of undefined "[3, 4]"] t show ?thesis by simp
qed

text \<open>The claim as stated asks the further step to return the same terminal result; the
  step after "No path found!" returns silently instead.\<close>

theorem terminal_result_not_repeated:
  "animate_bfs 2 ((ready islands (1, 1) (3, 3) ''BFS'')\<lparr>solving := True\<rparr>)
     = Some (Inr (NoSolution, ready islands (1, 1) (3, 3) ''BFS''))
   \<and> animate_bfs 3 (ready islands (1, 1) (3, 3) ''BFS'')
     = Some (Inr (Idle, ready islands (1, 1) (3, 3) ''BFS''))"
  by (simp add: animate_bfs_def ready_def)

text \<open>The clock enters a callback only through \<open>search_start_time\<close> and \<open>search_time\<close>
  (lines 199 and 321). \<open>untimed\<close> blanks the two fields, keeping whether a start time is set.\<close>

definition untimed :: "app \<Rightarrow> app" where
  "untimed s = s\<lparr>search_start_time := map_option (\<lambda>_. 0) (search_start_time s), search_time := 0\<rparr>"

definition untimed_result :: "(error + 'a \<times> app) option \<Rightarrow> (error + 'a \<times> app) option" where
  "untimed_result r = map_option (map_sum id (map_prod id untimed)) r"

definition same_presses :: "action list \<Rightarrow> action list \<Rightarrow> bool" where
  "same_presses as bs = list_all2 (\<lambda>a b. (a = TogglePause) = (b = TogglePause)) as bs"

lemma untimed_as_update:
  "untimed s = untimed s'
   \<Longrightarrow> \<exists>a b. s' = s\<lparr>search_start_time := a, search_time := b\<rparr>
             \<and> (a = None) = (search_start_time s = None)"
  by (cases s; cases s') (auto simp: untimed_def)

lemma untimed_update [simp]:
  "(a = None) = (search_start_time s = None)
   \<Longrightarrow> untimed (s\<lparr>search_start_time := a, search_time := b\<rparr>) = untimed s"
  by (cases s) (auto simp: untimed_def)

lemma untimed_toggle: "untimed s = untimed s' \<Longrightarrow> untimed (toggle_pause s) = untimed (toggle_pause s')"
  by (cases s; cases s') (auto simp: untimed_def toggle_pause_def)

lemma finish_untimed:
  assumes "untimed s = untimed s'"
  shows "untimed_result (finish now s) = untimed_result (finish now' s')"
proof -
  from untimed_as_update[OF assms] obtain a b where
    s': "s' = s\<lparr>search_start_time := a, search_time := b\<rparr>"
    and a: "(a = None) = (search_start_time s = None)"
    by auto
  show ?thesis
    unfolding s' using a
    by (cases s)
       (auto simp: finish_def draw_solution_path_def untimed_result_def untimed_def Let_def
          split: option.splits)
qed

lemma animate_bfs_untimed:
  assumes "untimed s = untimed s'"
  shows "untimed_result (animate_bfs now s) = untimed_result (animate_bfs now' s')"
proof -
  from untimed_as_update[OF assms] obtain a b where
    s': "s' = s\<lparr>search_start_time := a, search_time := b\<rparr>"
    and a: "(a = None) = (search_start_time s = None)"
    by auto
  have m: "map_option (\<lambda>_. 0::real) a = map_option (\<lambda>_. 0) (search_start_time s)"
    using a by (cases a; cases "search_start_time s") auto
  have fin: "\<And>q. untimed_result (finish now (s\<lparr>search_nodes := q\<rparr>))
                 = untimed_result (finish now' (s\<lparr>search_start_time := a, search_time := b, search_nodes := q\<rparr>))"
    by (rule finish_untimed) (simp add: untimed_def m)
  show ?thesis
    unfolding s' using a fin
    by (auto simp: animate_bfs_def untimed_result_def untimed_def
          simp del: discover.simps relax.simps relax_astar.simps
          split: frontier.splits list.splits sum.splits prod.splits)
qed

lemma animate_dfs_untimed:
  assumes "untimed s = untimed s'"
  shows "untimed_result (animate_dfs now s) = untimed_result (animate_dfs now' s')"
proof -
  from untimed_as_update[OF assms] obtain a b where
    s': "s' = s\<lparr>search_start_time := a, search_time := b\<rparr>"
    and a: "(a = None) = (search_start_time s = None)"
    by auto
  have m: "map_option (\<lambda>_. 0::real) a = map_option (\<lambda>_. 0) (search_start_time s)"
    using a by (cases a; cases "search_start_time s") auto
  have fin: "\<And>q. untimed_result (finish now (s\<lparr>search_nodes := q\<rparr>))
                 = untimed_result (finish now' (s\<lparr>search_start_time := a, search_time := b, search_nodes := q\<rparr>))"
    by (rule finish_untimed) (simp add: untimed_def m)
  show ?thesis
    unfolding s' using a fin
    by (auto simp: animate_dfs_def untimed_result_def untimed_def Let_def Let_def
          simp del: discover.simps relax.simps relax_astar.simps
          split: frontier.splits list.splits sum.splits prod.splits)
qed

lemma animate_dijkstra_untimed:
  assumes "untimed s = untimed s'"
  shows "untimed_result (animate_dijkstra now s) = untimed_result (animate_dijkstra now' s')"
proof -
  from untimed_as_update[OF assms] obtain a b where
    s': "s' = s\<lparr>search_start_time := a, search_time := b\<rparr>"
    and a: "(a = None) = (search_start_time s = None)"
    by auto
  have m: "map_option (\<lambda>_. 0::real) a = map_option (\<lambda>_. 0) (search_start_time s)"
    using a by (cases a; cases "search_start_time s") auto
  have fin: "\<And>q. untimed_result (finish now (s\<lparr>search_nodes := q\<rparr>))
                 = untimed_result (finish now' (s\<lparr>search_start_time := a, search_time := b, search_nodes := q\<rparr>))"
    by (rule finish_untimed) (simp add: untimed_def m)
  show ?thesis
    unfolding s' using a fin
    by (auto simp: animate_dijkstra_def untimed_result_def untimed_def Let_def Let_def
          simp del: discover.simps relax.simps relax_astar.simps
          split: frontier.splits list.splits sum.splits prod.splits)
qed

lemma animate_astar_untimed:
  assumes "untimed s = untimed s'"
  shows "untimed_result (animate_astar now s) = untimed_result (animate_astar now' s')"
proof -
  from untimed_as_update[OF assms] obtain a b where
    s': "s' = s\<lparr>search_start_time := a, search_time := b\<rparr>"
    and a: "(a = None) = (search_start_time s = None)"
    by auto
  have m: "map_option (\<lambda>_. 0::real) a = map_option (\<lambda>_. 0) (search_start_time s)"
    using a by (cases a; cases "search_start_time s") auto
  have fin: "\<And>q. untimed_result (finish now (s\<lparr>search_nodes := q\<rparr>))
                 = untimed_result (finish now' (s\<lparr>search_start_time := a, search_time := b, search_nodes := q\<rparr>))"
    by (rule finish_untimed) (simp add: untimed_def m)
  show ?thesis
    unfolding s' using a fin
    by (auto simp: animate_astar_def untimed_result_def untimed_def Let_def Let_def
          simp del: discover.simps relax.simps relax_astar.simps
          split: frontier.splits list.splits sum.splits prod.splits)
qed

lemma animate_untimed:
  assumes "untimed s = untimed s'"
  shows "untimed_result (animate algo now s) = untimed_result (animate algo now' s')"
  using animate_four[of algo] assms
  by (auto simp: animate_bfs_untimed animate_dfs_untimed animate_dijkstra_untimed
      animate_astar_untimed)

lemma untimed_result_cases:
  assumes "untimed_result r = untimed_result r'"
  shows "(r = None \<and> r' = None) \<or> (\<exists>e. r = Some (Inl e) \<and> r' = Some (Inl e))
         \<or> (\<exists>ev t t'. r = Some (Inr (ev, t)) \<and> r' = Some (Inr (ev, t')) \<and> untimed t = untimed t')"
proof (cases r)
  case None
  with assms show ?thesis by (simp add: untimed_result_def)
next
  case (Some x)
  with assms obtain x' where r': "r' = Some x'" by (cases r') (auto simp: untimed_result_def)
  show ?thesis
  proof (cases x)
    case (Inl e)
    with Some r' assms show ?thesis by (cases x') (auto simp: untimed_result_def)
  next
    case (Inr p)
    with Some r' assms show ?thesis
      by (cases x'; cases p) (auto simp: untimed_result_def)
  qed
qed

lemma run_untimed:
  assumes "same_presses as bs" and "untimed s = untimed s'"
  shows "untimed_result (run (animate algo) as s) = untimed_result (run (animate algo) bs s')"
  using assms unfolding same_presses_def
proof (induction as bs arbitrary: s s' rule: list_all2_induct)
  case Nil
  then show ?case by (simp add: untimed_result_def)
next
  case (Cons a as b bs)
  show ?case
  proof (cases a)
    case TogglePause
    with Cons.hyps(1) have b: "b = TogglePause" by simp
    from Cons.IH[OF untimed_toggle[OF Cons.prems]] TogglePause b show ?thesis by simp
  next
    case (Tick now)
    with Cons.hyps(1) obtain now' where b: "b = Tick now'" by (cases b) auto
    from untimed_result_cases[OF animate_untimed[OF Cons.prems, of algo now now']]
    consider "animate algo now s = None" "animate algo now' s' = None"
      | e where "animate algo now s = Some (Inl e)" "animate algo now' s' = Some (Inl e)"
      | ev t t' where "animate algo now s = Some (Inr (ev, t))"
          "animate algo now' s' = Some (Inr (ev, t'))" "untimed t = untimed t'"
      by metis
    then show ?thesis
    proof cases
      case 1
      then show ?thesis by (simp add: Tick b untimed_result_def)
    next
      case 2
      then show ?thesis by (simp add: Tick b untimed_result_def)
    next
      case 3
      from untimed_result_cases[OF Cons.IH[OF 3(3)]]
      consider "run (animate algo) as t = None" "run (animate algo) bs t' = None"
        | e where "run (animate algo) as t = Some (Inl e)" "run (animate algo) bs t' = Some (Inl e)"
        | evs u u' where "run (animate algo) as t = Some (Inr (evs, u))"
            "run (animate algo) bs t' = Some (Inr (evs, u'))" "untimed u = untimed u'"
        by metis
      then show ?thesis
      proof cases
        case 1
        with 3(1,2) show ?thesis by (simp add: Tick b untimed_result_def)
      next
        case 2
        with 3(1,2) show ?thesis by (simp add: Tick b untimed_result_def)
      next
        case 3
        with \<open>animate algo now s = Some (Inr (ev, t))\<close> \<open>animate algo now' s' = Some (Inr (ev, t'))\<close>
        show ?thesis by (simp add: Tick b untimed_result_def)
      qed
    qed
  qed
qed

lemma same_presses_ticks:
  "length ts = length ts' \<Longrightarrow> same_presses (map Tick ts) (map Tick ts')"
  by (simp add: same_presses_def list_all2_conv_all_nth)

lemma same_presses_append:
  "same_presses as bs \<Longrightarrow> same_presses cs ds \<Longrightarrow> same_presses (as @ cs) (bs @ ds)"
  by (simp add: same_presses_def list_all2_appendI)

lemma untimed_painted: "untimed_result r = untimed_result r' \<Longrightarrow> painted r = painted r'"
  by (cases r; cases r')
     (auto simp: untimed_result_def painted_def map_sum_def split: sum.splits)

lemma untimed_final:
  "untimed_result r = untimed_result r'
   \<Longrightarrow> map_option (map_sum id untimed) (final_state r) = map_option (map_sum id untimed) (final_state r')"
  by (cases r; cases r')
     (auto simp: untimed_result_def final_state_def map_sum_def split: sum.splits)

lemma pause_skipped:
  assumes "\<not> paused s"
  shows "final_state (run (animate algo)
            (map Tick ts1 @ TogglePause # map Tick ps @ TogglePause # map Tick ts2) s)
         = final_state (run (animate algo) (map Tick ts1 @ map Tick ts2) s)
       \<and> painted (run (animate algo)
            (map Tick ts1 @ TogglePause # map Tick ps @ TogglePause # map Tick ts2) s)
         = painted (run (animate algo) (map Tick ts1 @ map Tick ts2) s)"
proof -
  let ?T = "animate algo"
  have split: "map Tick ts1 @ TogglePause # map Tick ps @ TogglePause # map Tick ts2
               = map Tick ts1 @ (TogglePause # map Tick ps @ [TogglePause]) @ map Tick ts2"
    by simp
  show ?thesis
  proof (cases "run ?T (map Tick ts1) s")
    case None
    then show ?thesis unfolding split by (rule run_skip_none)
  next
    case (Some r)
    show ?thesis
    proof (cases r)
      case (Inl e)
      with Some have "run ?T (map Tick ts1) s = Some (Inl e)" by simp
      then show ?thesis unfolding split by (rule run_skip_error)
    next
      case (Inr p)
      obtain evs1 s1 where p: "p = (evs1, s1)" by (cases p) auto
      with Some Inr have r1: "run ?T (map Tick ts1) s = Some (Inr (evs1, s1))" by simp
      from run_ticks_paused[OF r1] assms have "\<not> paused s1" by simp
      from pause_block[OF this, of algo ps] obtain evsp where
        pb: "run ?T (TogglePause # map Tick ps @ [TogglePause]) s1 = Some (Inr (evsp, s1))"
        and quiet: "filter (\<lambda>e. e \<noteq> Idle \<and> e \<noteq> Polling) evsp = []"
        by blast
      show ?thesis unfolding split by (rule run_skip[OF r1 pb quiet])
    qed
  qed
qed

text \<open>
  C9. Take two runs of the same algorithm from start states that agree except for the clock
  fields: one is paused after some ticks, stays paused for any number of ticks and is then
  resumed; the other is never paused, and its ticks may read any clock values. Both show
  the same painted cells and the same final path, tick by tick, and end in states that agree
  except for the clock fields. A tick that finds the application paused returns without
  changing the state.
\<close>

theorem pause_resume:
  assumes "\<not> paused s" and "untimed s' = untimed s"
    and "length ts1' = length ts1" and "length ts2' = length ts2"
  shows "painted (run (animate algo)
            (map Tick ts1 @ TogglePause # map Tick ps @ TogglePause # map Tick ts2) s)
         = painted (run (animate algo) (map Tick ts1' @ map Tick ts2') s')
       \<and> map_option (map_sum id untimed) (final_state (run (animate algo)
            (map Tick ts1 @ TogglePause # map Tick ps @ TogglePause # map Tick ts2) s))
         = map_option (map_sum id untimed) (final_state (run (animate algo) (map Tick ts1' @ map Tick ts2') s'))
       \<and> (paused sp \<longrightarrow> (\<exists>ev. animate algo t sp = Some (Inr (ev, sp)) \<and> (ev = Idle \<or> ev = Polling)))"
proof -
  let ?P = "run (animate algo) (map Tick ts1 @ TogglePause # map Tick ps @ TogglePause # map Tick ts2) s"
  let ?U = "run (animate algo) (map Tick ts1 @ map Tick ts2) s"
  let ?V = "run (animate algo) (map Tick ts1' @ map Tick ts2') s'"
  from pause_skipped[OF assms(1), of algo ts1 ps ts2]
  have pu: "final_state ?P = final_state ?U" "painted ?P = painted ?U" by simp_all
  have "same_presses (map Tick ts1 @ map Tick ts2) (map Tick ts1' @ map Tick ts2')"
    using assms(3,4) by (intro same_presses_append same_presses_ticks) simp_all
  from run_untimed[OF this assms(2)[symmetric], of algo]
  have uv: "untimed_result ?U = untimed_result ?V" .
  have c1: "painted ?P = painted ?V" using pu(2) untimed_painted[OF uv] by simp
  have c2: "map_option (map_sum id untimed) (final_state ?P)
            = map_option (map_sum id untimed) (final_state ?V)"
    using pu(1) untimed_final[OF uv] by simp
  have c3: "paused sp \<longrightarrow> (\<exists>ev. animate algo t sp = Some (Inr (ev, sp)) \<and> (ev = Idle \<or> ev = Polling))"
  proof
    assume p: "paused sp"
    show "\<exists>ev. animate algo t sp = Some (Inr (ev, sp)) \<and> (ev = Idle \<or> ev = Polling)"
    proof (cases "solving sp")
      case True
      from animate_polling[OF True p] show ?thesis by blast
    next
      case False
      from animate_idle[OF False] show ?thesis by blast
    qed
  qed
  from c1 c2 c3 show ?thesis by (intro conjI)
qed

theorem pause_resume_witness:
  "\<not> paused (begin_search 0 (1, 1) (ready corridor (1, 1) (1, 3) ''BFS''))
   \<and> untimed (begin_search 10 (1, 1) (ready corridor (1, 1) (1, 3) ''BFS''))
     = untimed (begin_search 0 (1, 1) (ready corridor (1, 1) (1, 3) ''BFS''))
   \<and> painted (run (animate ''BFS'')
        (map Tick [1] @ TogglePause # map Tick [2, 3] @ TogglePause # map Tick [4, 5])
        (begin_search 0 (1, 1) (ready corridor (1, 1) (1, 3) ''BFS'')))
     = painted (run (animate ''BFS'') (map Tick [11] @ map Tick [12, 13])
        (begin_search 10 (1, 1) (ready corridor (1, 1) (1, 3) ''BFS'')))
   \<and> painted (run (animate ''BFS'') (map Tick [11] @ map Tick [12, 13])
        (begin_search 10 (1, 1) (ready corridor (1, 1) (1, 3) ''BFS'')))
     = Some (Inr [Visited [(1, 2)], Visited [(1, 3)], Solved [(1, 3), (1, 2), (1, 1)]])
   \<and> paused (toggle_pause (begin_search 0 (1, 1) (ready corridor (1, 1) (1, 3) ''BFS'')))
   \<and> (\<exists>ev. animate ''BFS'' 2 (toggle_pause (begin_search 0 (1, 1) (ready corridor (1, 1) (1, 3) ''BFS'')))
             = Some (Inr (ev, toggle_pause (begin_search 0 (1, 1) (ready corridor (1, 1) (1, 3) ''BFS''))))
           \<and> (ev = Idle \<or> ev = Polling))"
proof -
  let ?p = "begin_search 0 (1, 1) (ready corridor (1, 1) (1, 3) ''BFS'')"
  let ?u = "begin_search 10 (1, 1) (ready corridor (1, 1) (1, 3) ''BFS'')"
  have np: "\<not> paused ?p"
    by (simp add: begin_search_def ready_def Let_def)
  have ut: "untimed ?u = untimed ?p"
    by (simp add: begin_search_def ready_def untimed_def Let_def)
  have tp: "paused (toggle_pause ?p)"
    by (simp add: toggle_pause_def begin_search_def ready_def Let_def)
  have ev: "painted (run (animate ''BFS'') (map Tick [11] @ map Tick [12, 13]) ?u)
     = Some (Inr [Visited [(1, 2)], Visited [(1, 3)], Solved [(1, 3), (1, 2), (1, 1)]])"
    by code_simp
  from pause_resume[where s = ?p and s' = ?u and ?ts1.0 = "[1]" and ?ts1' = "[11]"
      and ?ts2.0 = "[4, 5]" and ?ts2' = "[12, 13]" and ps = "[2, 3]" and algo = "''BFS''"
      and sp = "toggle_pause ?p" and t = 2, OF np ut] tp
  have "painted (run (animate ''BFS'')
        (map Tick [1] @ TogglePause # map Tick [2, 3] @ TogglePause # map Tick [4, 5]) ?p)
     = painted (run (animate ''BFS'') (map Tick [11] @ map Tick [12, 13]) ?u)"
    and "\<exists>ev. animate ''BFS'' 2 (toggle_pause ?p) = Some (Inr (ev, toggle_pause ?p))
           \<and> (ev = Idle \<or> ev = Polling)"
    by simp_all
  with np ut tp ev show ?thesis by (intro conjI)
qed

section \<open>Well-formed grids\<close>

definition inside :: "grid \<Rightarrow> coord \<Rightarrow> bool" where
  "inside g c = (0 \<le> fst c \<and> fst c < int (length (hd g)) \<and> 0 \<le> snd c \<and> snd c < int (length g))"

lemma passage_inside: "passage g c = (inside g c \<and> g ! nat (snd c) ! nat (fst c) = 0)"
  by (auto simp: passage_def inside_def)

lemma wf_grid_row:
  assumes "wf_grid g" and "j < length g"
  shows "length (g ! j) = length (hd g)"
  using assms by (simp add: wf_grid_def list_all_length)

lemma in_bounds_wf:
  assumes "wf_grid g"
  shows "in_bounds (Some g) n = Inr (inside g n)"
proof (cases g)
  case Nil
  with assms show ?thesis by (simp add: wf_grid_def)
next
  case (Cons row rows)
  then show ?thesis by (auto simp: in_bounds_def inside_def)
qed

lemma get2_inside:
  assumes "wf_grid g" and "inside g (x, y)"
  shows "get2 g x y = Inr (g ! nat y ! nat x)"
proof -
  from assms(2) have y: "0 \<le> y" "y < int (length g)" and x: "0 \<le> x" "x < int (length (hd g))"
    by (simp_all add: inside_def)
  from y have "nat y < length g" by simp
  from wf_grid_row[OF assms(1) this] have "length (g ! nat y) = length (hd g)" .
  with x y show ?thesis by (simp add: get2_def py_get_def py_index_def)
qed

lemma get2_outside:
  assumes "wf_grid g" and "0 \<le> x" and "0 \<le> y" and "\<not> inside g (x, y)"
  shows "get2 g x y = Inl IndexError"
proof (cases "y < int (length g)")
  case False
  with assms(3) show ?thesis by (simp add: get2_def py_get_def py_index_def)
next
  case True
  with assms(3) have "nat y < length g" by simp
  from wf_grid_row[OF assms(1) this] have "length (g ! nat y) = length (hd g)" .
  with True assms(2-4) show ?thesis
    by (simp add: get2_def py_get_def py_index_def inside_def)
qed

lemma cell_at_wf:
  assumes "wf_grid g" and "inside g n"
  shows "cell_at (Some g) n = Inr (g ! nat (snd n) ! nat (fst n))"
  using get2_inside[OF assms(1), of "fst n" "snd n"] assms(2) by (simp add: cell_at_def)

section \<open>Reachability through passages\<close>

text \<open>\<open>reach g a b\<close>: \<open>b\<close> can be reached from \<open>a\<close> by moves between adjacent cells, every
  cell entered being a passage.\<close>

inductive reach :: "grid \<Rightarrow> coord \<Rightarrow> coord \<Rightarrow> bool" for g :: grid and a :: coord where
  reach_start: "reach g a a"
| reach_step: "reach g a b \<Longrightarrow> adjacent b c \<Longrightarrow> passage g c \<Longrightarrow> reach g a c"

definition cellv :: "grid \<Rightarrow> coord \<Rightarrow> nat" where
  "cellv g c = g ! nat (snd c) ! nat (fst c)"

lemma passage_cellv: "passage g c = (inside g c \<and> cellv g c = 0)"
  by (simp add: passage_inside cellv_def)

lemma adjacent_sym: "adjacent a b = adjacent b a"
  by (auto simp: adjacent_def)

lemma is_path_append_one:
  assumes "is_path g p" and "adjacent (last p) c" and "passage g c"
  shows "is_path g (p @ [c])"
  using assms
proof (induction g p rule: is_path.induct)
  case (1 g)
  then show ?case by simp
next
  case (2 g a)
  then show ?case by simp
next
  case (3 g a b cs)
  then show ?case by simp
qed

lemma is_path_last_passage: "is_path g p \<Longrightarrow> passage g (last p)"
  by (induction g p rule: is_path.induct) simp_all

lemma reach_imp_path:
  assumes "reach g a b" and "passage g a"
  shows "\<exists>p. path_between g a b p"
  using assms
proof (induction rule: reach.induct)
  case reach_start
  then have "path_between g a a [a]" by (simp add: path_between_def)
  then show ?case by blast
next
  case (reach_step b c)
  then obtain p where p: "is_path g p" "hd p = a" "last p = b"
    by (auto simp: path_between_def)
  from p(1) have ne: "p \<noteq> []" by (cases p) auto
  from is_path_append_one[OF p(1)] reach_step.hyps(2,3) p(3)
  have "is_path g (p @ [c])" by simp
  with p(2) ne have "path_between g a c (p @ [c])" by (simp add: path_between_def)
  then show ?case by blast
qed

lemma is_path_reach:
  assumes "is_path g p" and "reach g a (hd p)"
  shows "reach g a (last p)"
  using assms
proof (induction g p rule: is_path.induct)
  case (1 g)
  then show ?case by simp
next
  case (2 g b)
  then show ?case by simp
next
  case (3 g b c cs)
  from "3.prems"(1) have adj: "adjacent b c" and rest: "is_path g (c # cs)" by simp_all
  from rest have "passage g c" by (cases cs) simp_all
  with "3.prems"(2) adj have "reach g a c" by (auto intro: reach_step)
  with "3.IH" rest show ?case by simp
qed

lemma path_imp_reach:
  assumes "path_between g a b p"
  shows "reach g a b"
proof -
  from assms have "is_path g p" "hd p = a" "last p = b" by (simp_all add: path_between_def)
  with is_path_reach[of g p a] show ?thesis by (simp add: reach_start)
qed

lemma reach_iff_path: "passage g a \<Longrightarrow> reach g a b = (\<exists>p. path_between g a b p)"
  using reach_imp_path path_imp_reach by blast

lemma reach_trans_step:
  assumes "reach g b c" and "reach g a b"
  shows "reach g a c"
  using assms by (induction rule: reach.induct) (auto intro: reach_step)

lemma reach_mono:
  assumes "reach g a b" and "\<And>c. passage g c \<Longrightarrow> passage g' c"
  shows "reach g' a b"
  using assms(1)
proof (induction rule: reach.induct)
  case reach_start
  show ?case by (rule reach.reach_start)
next
  case (reach_step b c)
  from assms(2)[OF reach_step.hyps(3)] have "passage g' c" .
  with reach_step.IH reach_step.hyps(2) show ?case by (rule reach.reach_step)
qed

text \<open>A set of cells that contains \<open>a\<close> and is closed under stepping to an adjacent
  passage contains everything reachable from \<open>a\<close>.\<close>

lemma reach_closed:
  assumes "reach g a b" and "a \<in> S"
    and "\<And>c d. c \<in> S \<Longrightarrow> adjacent c d \<Longrightarrow> passage g d \<Longrightarrow> d \<in> S"
  shows "b \<in> S"
  using assms(1)
proof (induction rule: reach.induct)
  case reach_start
  show ?case by (rule assms(2))
next
  case (reach_step b c)
  then show ?case using assms(3) by blast
qed

section \<open>The carving loop keeps the maze connected\<close>

lemma hd_nth0: "g \<noteq> [] \<Longrightarrow> hd g = g ! 0"
  by (simp add: hd_conv_nth)

lemma set2_wf:
  assumes "wf_grid g" and "inside g (x, y)"
  shows "\<exists>g'. set2 g x y v = Inr g' \<and> wf_grid g' \<and> length g' = length g
              \<and> length (hd g') = length (hd g)
              \<and> (\<forall>c. inside g c \<longrightarrow> cellv g' c = (if c = (x, y) then v else cellv g c))"
proof -
  from assms(2) have y: "0 \<le> y" "y < int (length g)" and x: "0 \<le> x" "x < int (length (hd g))"
    by (simp_all add: inside_def)
  from y have yl: "nat y < length g" by simp
  from assms(1) have ne: "g \<noteq> []" by (simp add: wf_grid_def)
  have rows: "\<And>j. j < length g \<Longrightarrow> length (g ! j) = length (hd g)"
    using wf_grid_row[OF assms(1)] by blast
  define g' where "g' = g[nat y := (g ! nat y)[nat x := v]]"
  have s: "set2 g x y v = Inr g'"
    using x y rows[OF yl] by (simp add: set2_def py_get_def py_set_def py_index_def g'_def)
  have len: "length g' = length g" by (simp add: g'_def)
  have rows': "\<And>j. j < length g \<Longrightarrow> length (g' ! j) = length (hd g)"
  proof -
    fix j assume j: "j < length g"
    show "length (g' ! j) = length (hd g)"
      using rows[OF j] rows[OF yl] j yl by (cases "j = nat y") (simp_all add: g'_def)
  qed
  have ne': "g' \<noteq> []" using ne len by auto
  have hd': "length (hd g') = length (hd g)"
    using rows'[of 0] ne ne' by (simp add: hd_nth0)
  have wf': "wf_grid g'"
    using ne' rows' len hd' by (simp add: wf_grid_def list_all_length)
  have cells: "\<forall>c. inside g c \<longrightarrow> cellv g' c = (if c = (x, y) then v else cellv g c)"
  proof (intro allI impI)
    fix c assume c: "inside g c"
    then have cy: "nat (snd c) < length g" and cx: "nat (fst c) < length (hd g)"
      and nn: "0 \<le> fst c" "0 \<le> snd c"
      by (auto simp: inside_def)
    show "cellv g' c = (if c = (x, y) then v else cellv g c)"
    proof (cases "snd c = y")
      case False
      then have "nat (snd c) \<noteq> nat y" using nn y by simp
      moreover from False have "c \<noteq> (x, y)" by auto
      ultimately show ?thesis by (simp add: cellv_def g'_def)
    next
      case sy: True
      show ?thesis
      proof (cases "fst c = x")
        case True
        with sy have "c = (x, y)" by (cases c) simp
        then show ?thesis using yl x rows[OF yl] by (simp add: cellv_def g'_def)
      next
        case False
        then have "nat (fst c) \<noteq> nat x" using nn x by simp
        moreover from False have "c \<noteq> (x, y)" by auto
        ultimately show ?thesis using sy yl by (simp add: cellv_def g'_def)
      qed
    qed
  qed
  from s wf' len hd' cells show ?thesis by blast
qed

lemma inside_cong:
  assumes "length g' = length g" and "length (hd g') = length (hd g)"
  shows "inside g' c = inside g c"
  using assms by (simp add: inside_def)

text \<open>The invariant of the \<open>while cell_list\<close> loop.\<close>

definition carve_inv :: "int \<Rightarrow> int \<Rightarrow> grid \<times> coord list \<times> nat \<Rightarrow> bool" where
  "carve_inv width height st =
     (case st of (mz, cell_list, k) \<Rightarrow>
        wf_grid mz \<and> int (length mz) = height \<and> int (length (hd mz)) = width
        \<and> (\<forall>c \<in> set cell_list. 0 < fst c \<and> fst c < width \<and> 0 < snd c \<and> snd c < height
                                \<and> reach mz (1, 1) c)
        \<and> (\<forall>c. passage mz c \<longrightarrow> reach mz (1, 1) c)
        \<and> passage mz (1, 1))"

lemma scan_ok:
  assumes "wf_grid mz" and "int (length mz) = height" and "int (length (hd mz)) = width"
  shows "\<exists>ns. scan width height mz c ds = Inr ns"
proof (induction ds)
  case Nil
  show ?case by simp
next
  case (Cons d ds)
  then obtain ns where ns: "scan width height mz c ds = Inr ns" by blast
  let ?nx = "fst c + fst d" and ?ny = "snd c + snd d"
  show ?case
  proof (cases "0 < ?nx \<and> ?nx < width \<and> 0 < ?ny \<and> ?ny < height")
    case False
    show ?thesis unfolding scan.simps Let_def if_not_P[OF False] using ns by blast
  next
    case True
    then have "inside mz (?nx, ?ny)" using assms(2,3) by (simp add: inside_def)
    from get2_inside[OF assms(1) this] show ?thesis
      unfolding scan.simps Let_def if_P[OF True] by (simp add: ns)
  qed
qed

lemma mid_cell_between:
  assumes "(dx, dy) \<in> set [(2, 0), (-2, 0), (0, 2), (0, -2::int)]"
    and "0 < (x::int)" "x < w" "0 < x + dx" "x + dx < w"
    and "0 < (y::int)" "y < h" "0 < y + dy" "y + dy < h"
  shows "0 < x + dx div 2 \<and> x + dx div 2 < w \<and> 0 < y + dy div 2 \<and> y + dy div 2 < h
         \<and> adjacent (x, y) (x + dx div 2, y + dy div 2)
         \<and> adjacent (x + dx div 2, y + dy div 2) (x + dx, y + dy)"
proof -
  from assms(1) consider "dx = 2 \<and> dy = 0" | "dx = -2 \<and> dy = 0" | "dx = 0 \<and> dy = 2" | "dx = 0 \<and> dy = -2"
    by auto
  then show ?thesis
  proof cases
    case 1
    then show ?thesis using assms(2-9) by (simp add: adjacent_def)
  next
    case 2
    then show ?thesis using assms(2-9) by (simp add: adjacent_def)
  next
    case 3
    then show ?thesis using assms(2-9) by (simp add: adjacent_def)
  next
    case 4
    then show ?thesis using assms(2-9) by (simp add: adjacent_def)
  qed
qed

lemma carve_open_two:
  assumes wf: "wf_grid mz" and m: "inside mz m" and n: "inside mz n"
    and conn: "\<forall>c. passage mz c \<longrightarrow> reach mz a c"
    and rc: "reach mz a c" and cm: "adjacent c m" and mn: "adjacent m n"
  shows "\<exists>mz1 mz2. set2 mz (fst m) (snd m) 0 = Inr mz1 \<and> set2 mz1 (fst n) (snd n) 0 = Inr mz2
           \<and> wf_grid mz2 \<and> length mz2 = length mz \<and> length (hd mz2) = length (hd mz)
           \<and> (\<forall>d. passage mz d \<longrightarrow> passage mz2 d)
           \<and> (\<forall>d. passage mz2 d \<longrightarrow> reach mz2 a d)
           \<and> reach mz2 a n"
proof -
  from set2_wf[OF wf, of "fst m" "snd m" 0] m obtain mz1 where
    s1: "set2 mz (fst m) (snd m) 0 = Inr mz1" and wf1: "wf_grid mz1"
    and l1: "length mz1 = length mz" "length (hd mz1) = length (hd mz)"
    and c1: "\<forall>c. inside mz c \<longrightarrow> cellv mz1 c = (if c = m then 0 else cellv mz c)"
    by auto
  have in1: "\<And>c. inside mz1 c = inside mz c" using l1 by (rule inside_cong)
  from set2_wf[OF wf1, of "fst n" "snd n" 0] n in1 obtain mz2 where
    s2: "set2 mz1 (fst n) (snd n) 0 = Inr mz2" and wf2: "wf_grid mz2"
    and l2: "length mz2 = length mz1" "length (hd mz2) = length (hd mz1)"
    and c2: "\<forall>c. inside mz1 c \<longrightarrow> cellv mz2 c = (if c = n then 0 else cellv mz1 c)"
    by auto
  have in2: "\<And>c. inside mz2 c = inside mz c" using inside_cong[OF l2] in1 by simp
  have cells: "\<And>d. inside mz d \<Longrightarrow> cellv mz2 d = (if d = n \<or> d = m then 0 else cellv mz d)"
  proof -
    fix d assume d: "inside mz d"
    with in1 have d1: "inside mz1 d" by simp
    from c2 d1 have "cellv mz2 d = (if d = n then 0 else cellv mz1 d)" by blast
    moreover from c1 d have "cellv mz1 d = (if d = m then 0 else cellv mz d)" by blast
    ultimately show "cellv mz2 d = (if d = n \<or> d = m then 0 else cellv mz d)"
      by (cases "d = n"; cases "d = m") simp_all
  qed
  have pass2: "\<And>d. passage mz2 d = (passage mz d \<or> d = m \<or> d = n)"
    using cells in2 m n by (auto simp: passage_cellv)
  have mono: "\<And>d. passage mz d \<Longrightarrow> passage mz2 d" using pass2 by blast
  have rc2: "reach mz2 a c" using rc mono by (rule reach_mono)
  have pm: "passage mz2 m" and pn: "passage mz2 n" using pass2 by blast+
  have rm: "reach mz2 a m" using rc2 cm pm by (rule reach_step)
  have rn: "reach mz2 a n" using rm mn pn by (rule reach_step)
  have all: "\<forall>d. passage mz2 d \<longrightarrow> reach mz2 a d"
  proof (intro allI impI)
    fix d assume "passage mz2 d"
    then consider "passage mz d" | "d = m" | "d = n" using pass2 by blast
    then show "reach mz2 a d"
    proof cases
      case 1
      with conn have "reach mz a d" by blast
      then show ?thesis using mono by (rule reach_mono)
    next
      case 2
      with rm show ?thesis by simp
    next
      case 3
      with rn show ?thesis by simp
    qed
  qed
  from s1 s2 wf2 l1 l2 mono all rn show ?thesis by auto
qed

lemma carve_step_inv:
  assumes inv: "carve_inv width height (mz, cell_list, k)" and ne: "cell_list \<noteq> []"
  shows "\<exists>st'. carve_step width height r (mz, cell_list, k) = Inr st' \<and> carve_inv width height st'"
proof -
  define c where "c = choice r k cell_list"
  from inv have wf: "wf_grid mz" and h: "int (length mz) = height"
    and w: "int (length (hd mz)) = width"
    and cl: "\<forall>c \<in> set cell_list. 0 < fst c \<and> fst c < width \<and> 0 < snd c \<and> snd c < height
                                \<and> reach mz (1, 1) c"
    and conn: "\<forall>c. passage mz c \<longrightarrow> reach mz (1, 1) c"
    and p11: "passage mz (1, 1)"
    by (simp_all add: carve_inv_def)
  have cin: "c \<in> set cell_list" unfolding c_def by (rule choice_mem[OF ne])
  with cl have cr: "0 < fst c" "fst c < width" "0 < snd c" "snd c < height" "reach mz (1, 1) c"
    by auto
  from scan_ok[OF wf h w] obtain ns
    where ns: "scan width height mz c [(2, 0), (-2, 0), (0, 2), (0, -2)] = Inr ns"
    by blast
  show ?thesis
  proof (cases "ns = []")
    case True
    with ns have "carve_step width height r (mz, cell_list, k)
                  = Inr (mz, remove1 c cell_list, k + 1)"
      using carve_step_dead_end[of width height mz r k cell_list] by (simp add: c_def)
    moreover have "carve_inv width height (mz, remove1 c cell_list, k + 1)"
      using wf h w cl conn p11 set_remove1_subset[of c cell_list] by (auto simp: carve_inv_def)
    ultimately show ?thesis by blast
  next
    case False
    obtain nx ny dx dy where ch: "choice r (k + 1) ns = (nx, ny, dx, dy)"
      by (cases "choice r (k + 1) ns") auto
    have "(nx, ny, dx, dy) \<in> set ns" using choice_mem[OF False, of r "k + 1"] ch by simp
    from scan_mem[OF ns this] have d: "(dx, dy) \<in> set [(2, 0), (-2, 0), (0, 2), (0, -2)]"
      and nx: "nx = fst c + dx" "0 < nx" "nx < width" and ny: "ny = snd c + dy" "0 < ny" "ny < height"
      by blast+
    from mid_cell_between[OF d cr(1,2) nx(2,3)[unfolded nx(1)] cr(3,4) ny(2,3)[unfolded ny(1)]]
    have mid: "0 < fst c + dx div 2" "fst c + dx div 2 < width"
      "0 < snd c + dy div 2" "snd c + dy div 2 < height"
      "adjacent c (fst c + dx div 2, snd c + dy div 2)"
      "adjacent (fst c + dx div 2, snd c + dy div 2) (nx, ny)"
      by (simp_all add: nx(1) ny(1))
    have im: "inside mz (fst c + dx div 2, snd c + dy div 2)"
      using mid(1-4) h w by (simp add: inside_def)
    have inn: "inside mz (nx, ny)" using nx ny h w by (simp add: inside_def)
    from carve_open_two[OF wf im inn conn cr(5) mid(5,6)] obtain mz1 mz2 where
      s1: "set2 mz (fst c + dx div 2) (snd c + dy div 2) 0 = Inr mz1"
      and s2: "set2 mz1 nx ny 0 = Inr mz2" and wf2: "wf_grid mz2"
      and l2: "length mz2 = length mz" "length (hd mz2) = length (hd mz)"
      and mono: "\<forall>d. passage mz d \<longrightarrow> passage mz2 d"
      and all: "\<forall>d. passage mz2 d \<longrightarrow> reach mz2 (1, 1) d"
      and rn: "reach mz2 (1, 1) (nx, ny)"
      by auto
    have step: "carve_step width height r (mz, cell_list, k)
                = Inr (mz2, cell_list @ [(nx, ny)], k + 2)"
      unfolding carve_step_carve[OF ns[unfolded c_def] False ch]
      using s1 s2 by (simp add: c_def)
    have old: "\<forall>c \<in> set cell_list. reach mz2 (1, 1) c"
    proof
      fix e assume "e \<in> set cell_list"
      with cl have "reach mz (1, 1) e" by blast
      then show "reach mz2 (1, 1) e" using mono by (auto intro: reach_mono)
    qed
    have "carve_inv width height (mz2, cell_list @ [(nx, ny)], k + 2)"
      using wf2 l2 h w cl old all rn nx ny mono p11 by (auto simp: carve_inv_def)
    with step show ?thesis by blast
  qed
qed

lemma carve_ok:
  assumes "carve_inv width height st"
  shows "\<exists>g. carve width height r st = Inr g \<and> wf_grid g \<and> int (length g) = height
             \<and> int (length (hd g)) = width \<and> (\<forall>c. passage g c \<longrightarrow> reach g (1, 1) c)
             \<and> passage g (1, 1)"
  using assms
proof (induction width height r st rule: carve.induct)
  case (1 width height r st)
  obtain mz cell_list k where st: "st = (mz, cell_list, k)" by (cases st) auto
  show ?case
  proof (cases "cell_list = []")
    case True
    then have "carve width height r st = Inr mz"
      by (subst carve.simps) (simp add: st)
    with "1.prems" show ?thesis by (simp add: st carve_inv_def)
  next
    case False
    from carve_step_inv[OF "1.prems"[unfolded st] False, of r] obtain st' where
      step: "carve_step width height r st = Inr st'" and inv': "carve_inv width height st'"
      by (auto simp: st)
    have ne: "fst (snd st) \<noteq> []" using False by (simp add: st)
    from "1.IH"[OF ne step inv'] obtain g where
      g: "carve width height r st' = Inr g" "wf_grid g" "int (length g) = height"
      "int (length (hd g)) = width" "\<forall>c. passage g c \<longrightarrow> reach g (1, 1) c"
      "passage g (1, 1)"
      by blast
    have "carve width height r st = carve width height r st'"
      by (subst carve.simps) (simp add: ne step)
    with g show ?thesis by simp
  qed
qed

section \<open>Generated mazes\<close>

declare carve.simps [simp del]

text \<open>The odd-forcing of lines 26-29.\<close>

definition odd_up :: "int \<Rightarrow> int" where
  "odd_up n = (if n mod 2 = 0 then n + 1 else n)"

lemma odd_up_ge3: "2 \<le> n \<Longrightarrow> 3 \<le> odd_up n"
  unfolding odd_up_def by presburger

lemma odd_up_le1: "n < 2 \<Longrightarrow> odd_up n \<le> 1"
  unfolding odd_up_def by presburger

lemma generate_maze_unfold:
  "generate_maze w0 h0 r =
     (case set2 (replicate (nat (odd_up h0)) (replicate (nat (odd_up w0)) 1)) 1 1 0 of
        Inl e \<Rightarrow> Inl e
      | Inr mz1 \<Rightarrow> carve (odd_up w0) (odd_up h0) r (mz1, [(1, 1)], 0))"
  by (simp only: generate_maze_def odd_up_def Let_def)

lemma generate_ok:
  assumes "2 \<le> w0" and "2 \<le> h0"
  shows "\<exists>g. generate_maze w0 h0 r = Inr g \<and> wf_grid g \<and> int (length g) = odd_up h0
             \<and> int (length (hd g)) = odd_up w0 \<and> (\<forall>c. passage g c \<longrightarrow> reach g (1, 1) c)
             \<and> passage g (1, 1)"
proof -
  define W where "W = nat (odd_up w0)"
  define H where "H = nat (odd_up h0)"
  define mz0 where "mz0 = replicate H (replicate W (1::nat))"
  from odd_up_ge3[OF assms(1)] have W: "3 \<le> W" "int W = odd_up w0" by (simp_all add: W_def)
  from odd_up_ge3[OF assms(2)] have H: "3 \<le> H" "int H = odd_up h0" by (simp_all add: H_def)
  have len0: "length mz0 = H" by (simp add: mz0_def)
  have hd0: "hd mz0 = replicate W 1" using H by (cases H) (simp_all add: mz0_def)
  have lhd0: "length (hd mz0) = W" by (simp add: hd0)
  have wf0: "wf_grid mz0"
    unfolding wf_grid_def hd0 using H by (auto simp: mz0_def list_all_iff)
  have in0: "inside mz0 (1, 1)" using W H by (simp add: inside_def len0 lhd0)
  have c0: "\<And>c. inside mz0 c \<Longrightarrow> cellv mz0 c = 1"
  proof -
    fix c assume "inside mz0 c"
    then have "nat (snd c) < H" "nat (fst c) < W" by (auto simp: inside_def len0 lhd0)
    then show "cellv mz0 c = 1" by (simp add: cellv_def mz0_def)
  qed
  from set2_wf[OF wf0 in0, of 0] obtain mz1 where
    s1: "set2 mz0 1 1 0 = Inr mz1" and wf1: "wf_grid mz1"
    and l1: "length mz1 = length mz0" "length (hd mz1) = length (hd mz0)"
    and c1: "\<forall>c. inside mz0 c \<longrightarrow> cellv mz1 c = (if c = (1, 1) then 0 else cellv mz0 c)"
    by blast
  have in1: "\<And>c. inside mz1 c = inside mz0 c" using l1 by (rule inside_cong)
  have p11: "passage mz1 (1, 1)"
    using c1 in0 in1 by (simp add: passage_cellv)
  have only: "\<And>c. passage mz1 c \<Longrightarrow> c = (1, 1)"
  proof (rule ccontr)
    fix c assume p: "passage mz1 c" and ne: "c \<noteq> (1, 1)"
    from p have i: "inside mz0 c" and z: "cellv mz1 c = 0" using in1 by (simp_all add: passage_cellv)
    from c1[rule_format, OF i] ne have "cellv mz1 c = cellv mz0 c" by simp
    with c0[OF i] z show False by simp
  qed
  have conn: "\<forall>c. passage mz1 c \<longrightarrow> reach mz1 (1, 1) c"
    using only reach_start[of mz1 "(1, 1)"] by blast
  have inv: "carve_inv (odd_up w0) (odd_up h0) (mz1, [(1, 1)], 0)"
    unfolding carve_inv_def prod.case
    using wf1 l1 len0 lhd0 W H conn p11 reach_start[of mz1 "(1, 1)"] by simp
  from carve_ok[OF inv, of r] obtain g where
    g: "carve (odd_up w0) (odd_up h0) r (mz1, [(1, 1)], 0) = Inr g" "wf_grid g"
    "int (length g) = odd_up h0" "int (length (hd g)) = odd_up w0"
    "\<forall>c. passage g c \<longrightarrow> reach g (1, 1) c" "passage g (1, 1)"
    by blast
  have "generate_maze w0 h0 r = Inr g"
    unfolding generate_maze_unfold W_def[symmetric] H_def[symmetric] mz0_def[symmetric]
    by (simp only: s1 sum.case g(1))
  with g show ?thesis by blast
qed

lemma generate_fails_small:
  assumes "w0 < 2 \<or> h0 < 2"
  shows "generate_maze w0 h0 r = Inl IndexError"
proof (cases "h0 < 2")
  case True
  from odd_up_le1[OF True] have "py_index (nat (odd_up h0)) 1 = None"
    by (simp add: py_index_def)
  then have r0: "py_get (replicate (nat (odd_up h0)) (replicate (nat (odd_up w0)) (1::nat))) 1 = Inl IndexError"
    by (simp add: py_get_def)
  show ?thesis unfolding generate_maze_unfold set2_def r0 by simp
next
  case False
  with assms have w: "w0 < 2" by simp
  from False have "3 \<le> odd_up h0" by (simp add: odd_up_ge3)
  then have "py_index (nat (odd_up h0)) 1 = Some 1" by (simp add: py_index_def)
  then have r1: "py_get (replicate (nat (odd_up h0)) (replicate (nat (odd_up w0)) (1::nat))) 1
             = Inr (replicate (nat (odd_up w0)) 1)"
    using \<open>3 \<le> odd_up h0\<close> by (simp add: py_get_def)
  from odd_up_le1[OF w] have "py_index (nat (odd_up w0)) 1 = None"
    by (simp add: py_index_def)
  then have r2: "py_set (replicate (nat (odd_up w0)) (1::nat)) 1 0 = Inl IndexError"
    by (simp add: py_set_def)
  show ?thesis unfolding generate_maze_unfold set2_def r1 sum.case r2 by simp
qed

text \<open>
  C4 (amended). For all integer inputs \<open>width \<ge> 2\<close> and \<open>height \<ge> 2\<close> and every sequence of
  random choices, \<open>generate_maze\<close> returns a grid without raising, and the grid's width and
  height are the inputs incremented by one if even (20 gives 21, 21 gives 21). No clamping
  to a minimum size is performed.
\<close>

theorem generate_maze_dimensions:
  assumes "2 \<le> w0" and "2 \<le> h0"
  shows "\<exists>g. generate_maze w0 h0 r = Inr g \<and> int (length g) = odd_up h0
             \<and> list_all (\<lambda>row. int (length row) = odd_up w0) g"
proof -
  from generate_ok[OF assms, of r] obtain g where
    g: "generate_maze w0 h0 r = Inr g" "wf_grid g" "int (length g) = odd_up h0"
    "int (length (hd g)) = odd_up w0"
    by blast
  have "list_all (\<lambda>row. int (length row) = odd_up w0) g"
    unfolding list_all_iff
  proof
    fix row assume "row \<in> set g"
    with g(2) have "length row = length (hd g)"
      unfolding wf_grid_def list_all_iff by blast
    with g(4) show "int (length row) = odd_up w0" by simp
  qed
  with g(1,3) show ?thesis by blast
qed

theorem generate_maze_dimensions_witness:
  "(2::int) \<le> 20 \<and> (2::int) \<le> 21
   \<and> (\<exists>g. generate_maze 20 21 id = Inr g \<and> int (length g) = 21
            \<and> list_all (\<lambda>row. int (length row) = 21) g)"
proof -
  have a: "(2::int) \<le> 20" and b: "(2::int) \<le> 21" by simp_all
  from generate_maze_dimensions[OF a b, of id] a b show ?thesis by (simp add: odd_up_def)
qed

text \<open>The claim as stated promises a grid for every positive input and a clamp to size 3
  for the request 1x1; \<open>generate_maze(1, 1)\<close> raises IndexError at \<open>maze[1][1] = 0\<close>.\<close>

theorem generate_maze_one_by_one_raises: "generate_maze 1 1 id = Inl IndexError"
  by (simp add: generate_maze_unfold odd_up_def set2_def py_get_def py_index_def)

text \<open>
  C2. In every grid that \<open>generate_maze\<close> returns, whatever the inputs and the random
  choices, every passage cell is joined to (1,1) by a 4-connected path of passage cells.
\<close>

theorem generated_maze_connected:
  assumes "generate_maze w0 h0 r = Inr g" and "passage g c"
  shows "\<exists>p. path_between g (1, 1) c p"
proof -
  have big: "2 \<le> w0 \<and> 2 \<le> h0"
  proof (rule ccontr)
    assume "\<not> (2 \<le> w0 \<and> 2 \<le> h0)"
    then have "w0 < 2 \<or> h0 < 2" by auto
    from generate_fails_small[OF this, of r] assms(1) show False by simp
  qed
  from generate_ok[of w0 h0 r] big assms(1) have
    conn: "\<forall>c. passage g c \<longrightarrow> reach g (1, 1) c" and p11: "passage g (1, 1)"
    by auto
  from conn assms(2) have "reach g (1, 1) c" by blast
  then show ?thesis using p11 by (rule reach_imp_path)
qed

theorem generated_maze_connected_witness:
  "generate_maze 5 5 id
     = Inr [[1, 1, 1, 1, 1], [1, 0, 0, 0, 1], [1, 0, 1, 1, 1], [1, 0, 0, 0, 1], [1, 1, 1, 1, 1]]
   \<and> passage [[1, 1, 1, 1, 1], [1, 0, 0, 0, 1], [1, 0, 1, 1, 1], [1, 0, 0, 0, 1], [1, 1, 1, 1, 1]] (3, 3)
   \<and> (\<exists>p. path_between
            [[1, 1, 1, 1, 1], [1, 0, 0, 0, 1], [1, 0, 1, 1, 1], [1, 0, 0, 0, 1], [1, 1, 1, 1, 1]]
            (1, 1) (3, 3) p)"
proof -
  have gen: "generate_maze 5 5 id
     = Inr [[1, 1, 1, 1, 1], [1, 0, 0, 0, 1], [1, 0, 1, 1, 1], [1, 0, 0, 0, 1], [1, 1, 1, 1, 1]]"
    by code_simp
  have p: "passage [[1, 1, 1, 1, 1], [1, 0, 0, 0, 1], [1, 0, 1, 1, 1], [1, 0, 0, 0, 1], [1, 1, 1, 1, 1]] (3, 3)"
    by (simp add: passage_def)
  from generated_maze_connected[OF gen p] gen p show ?thesis by blast
qed

section \<open>Choosing the end points and starting a solve\<close>

text \<open>The application as \<open>__init__\<close> leaves it (lines 66-85); \<open>selection_mode\<close> is not yet
  an attribute.\<close>

definition initial :: app where
  "initial =
     \<lparr>maze = None, start_point = None, end_point = None, solving = False, paused = False,
      search_start_time = None, search_time = 0, search_nodes = Cells [], parents = Map.empty,
      distances = Map.empty, algorithm_var = ''BFS'', selection_mode = None\<rparr>"

text \<open>The start and end points, when set, are passage cells of the maze shown.\<close>

definition points_ok :: "app \<Rightarrow> bool" where
  "points_ok s =
     (case maze s of
        None \<Rightarrow> start_point s = None \<and> end_point s = None
      | Some g \<Rightarrow> wf_grid g
                 \<and> (case start_point s of None \<Rightarrow> True | Some c \<Rightarrow> passage g c)
                 \<and> (case end_point s of None \<Rightarrow> True | Some c \<Rightarrow> passage g c))"

lemma generate_wf:
  assumes "generate_maze w0 h0 r = Inr g"
  shows "wf_grid g"
proof -
  have big: "2 \<le> w0 \<and> 2 \<le> h0"
  proof (rule ccontr)
    assume "\<not> (2 \<le> w0 \<and> 2 \<le> h0)"
    then have "w0 < 2 \<or> h0 < 2" by auto
    from generate_fails_small[OF this, of r] assms show False by simp
  qed
  from generate_ok[of w0 h0 r] big assms show ?thesis by auto
qed

lemma click_wall:
  assumes "maze s = Some g" and "wf_grid g" and "inside g (x, y)" and "\<not> passage g (x, y)"
  shows "on_canvas_click x y s = Inr s"
proof -
  from assms(3,4) have "g ! nat y ! nat x \<noteq> 0" by (simp add: passage_inside)
  with get2_inside[OF assms(2,3)] assms(1) show ?thesis
    by (simp add: on_canvas_click_def)
qed

lemma click_outside:
  assumes "maze s = Some g" and "wf_grid g" and "0 \<le> x" and "0 \<le> y" and "\<not> inside g (x, y)"
  shows "on_canvas_click x y s = Inl IndexError"
  using assms by (simp add: on_canvas_click_def get2_outside)

lemma click_passage:
  assumes "maze s = Some g" and "wf_grid g" and "passage g (x, y)"
  shows "on_canvas_click x y s =
           Inr (case selection_mode s of
                  None \<Rightarrow> s
                | Some m \<Rightarrow> (if m = ''start'' then s\<lparr>start_point := Some (x, y)\<rparr>
                             else if m = ''end'' then s\<lparr>end_point := Some (x, y)\<rparr>
                             else s)\<lparr>selection_mode := None\<rparr>)"
proof -
  from assms(3) have i: "inside g (x, y)" and z: "g ! nat y ! nat x = 0"
    by (simp_all add: passage_inside)
  from get2_inside[OF assms(2) i] z assms(1) show ?thesis
    by (simp add: on_canvas_click_def split: option.splits)
qed

lemma click_returns:
  assumes "maze s = Some g" and "wf_grid g" and "0 \<le> x" and "0 \<le> y"
    and "on_canvas_click x y s = Inr s'"
  shows "maze s' = Some g
         \<and> (start_point s' = start_point s \<or> start_point s' = Some (x, y) \<and> passage g (x, y))
         \<and> (end_point s' = end_point s \<or> end_point s' = Some (x, y) \<and> passage g (x, y))"
proof (cases "inside g (x, y)")
  case False
  from click_outside[OF assms(1-4) False] assms(5) show ?thesis by simp
next
  case True
  show ?thesis
  proof (cases "passage g (x, y)")
    case False
    from click_wall[OF assms(1,2) True False] assms(1,5) show ?thesis by simp
  next
    case p: True
    from click_passage[OF assms(1,2) p] assms(1,5) p show ?thesis
      by (auto split: option.splits if_splits)
  qed
qed

text \<open>
  C8 (amended). \<open>on_solve_maze\<close> refuses to start, with an error box and the state
  untouched, exactly in the case that the maze, the start point or the end point is missing;
  it does not look at where the points lie. Walls and cells outside the grid are kept out
  when the points are chosen. A click on a cell of the grid that is not a passage returns
  with the state unchanged and shows nothing. A click on a cell beyond the last row or column
  raises IndexError. A click on a passage cell returns, sets the point that is being selected
  to the clicked cell and changes no other point. So after a click (at non-negative cell
  indices) that returns, the start point and the end point are each either what they were or
  the clicked cell, which is then a passage; points that are passages of the maze shown stay
  so, and a newly generated maze has no points.
\<close>

theorem solve_refused_only_when_missing:
  "(maze s = None \<or> start_point s = None \<or> end_point s = None
      \<longrightarrow> (\<exists>msg. on_solve_maze now now' s = Some (Inr (ShowError msg, s))))
   \<and> (maze s \<noteq> None \<and> start_point s = Some st \<and> end_point s \<noteq> None
      \<longrightarrow> on_solve_maze now now' s = animate (algorithm_var s) now' (begin_search now st s))
   \<and> (maze s = Some g \<and> wf_grid g \<and> inside g (x, y) \<and> \<not> passage g (x, y)
      \<longrightarrow> on_canvas_click x y s = Inr s)
   \<and> (maze s = Some g \<and> wf_grid g \<and> 0 \<le> x \<and> 0 \<le> y \<and> \<not> inside g (x, y)
      \<longrightarrow> on_canvas_click x y s = Inl IndexError)
   \<and> (maze s = Some g \<and> wf_grid g \<and> passage g (x, y)
      \<longrightarrow> (\<exists>s'. on_canvas_click x y s = Inr s'
                \<and> (selection_mode s = Some ''start'' \<longrightarrow> start_point s' = Some (x, y))
                \<and> (selection_mode s \<noteq> Some ''start'' \<longrightarrow> start_point s' = start_point s)
                \<and> (selection_mode s = Some ''end'' \<longrightarrow> end_point s' = Some (x, y))
                \<and> (selection_mode s \<noteq> Some ''end'' \<longrightarrow> end_point s' = end_point s)))
   \<and> (maze s = Some g \<and> wf_grid g \<and> 0 \<le> x \<and> 0 \<le> y \<and> on_canvas_click x y s = Inr s'
      \<longrightarrow> maze s' = Some g
          \<and> (start_point s' = start_point s \<or> start_point s' = Some (x, y) \<and> passage g (x, y))
          \<and> (end_point s' = end_point s \<or> end_point s' = Some (x, y) \<and> passage g (x, y)))
   \<and> (points_ok s \<and> 0 \<le> x \<and> 0 \<le> y \<and> on_canvas_click x y s = Inr s' \<longrightarrow> points_ok s')
   \<and> (on_generate_maze w0 h0 r s = Inr s2
      \<longrightarrow> points_ok s2 \<and> start_point s2 = None \<and> end_point s2 = None)"
proof -
  have c1: "maze s = None \<or> start_point s = None \<or> end_point s = None
      \<longrightarrow> (\<exists>msg. on_solve_maze now now' s = Some (Inr (ShowError msg, s)))"
    by (auto simp: on_solve_maze_def split: option.splits)
  have c2: "maze s \<noteq> None \<and> start_point s = Some st \<and> end_point s \<noteq> None
      \<longrightarrow> on_solve_maze now now' s = animate (algorithm_var s) now' (begin_search now st s)"
    by (auto simp: on_solve_maze_def)
  have c3: "maze s = Some g \<and> wf_grid g \<and> inside g (x, y) \<and> \<not> passage g (x, y)
      \<longrightarrow> on_canvas_click x y s = Inr s"
    using click_wall by blast
  have c4: "maze s = Some g \<and> wf_grid g \<and> 0 \<le> x \<and> 0 \<le> y \<and> \<not> inside g (x, y)
      \<longrightarrow> on_canvas_click x y s = Inl IndexError"
    using click_outside by blast
  have c5: "maze s = Some g \<and> wf_grid g \<and> passage g (x, y)
      \<longrightarrow> (\<exists>s'. on_canvas_click x y s = Inr s'
                \<and> (selection_mode s = Some ''start'' \<longrightarrow> start_point s' = Some (x, y))
                \<and> (selection_mode s \<noteq> Some ''start'' \<longrightarrow> start_point s' = start_point s)
                \<and> (selection_mode s = Some ''end'' \<longrightarrow> end_point s' = Some (x, y))
                \<and> (selection_mode s \<noteq> Some ''end'' \<longrightarrow> end_point s' = end_point s))"
  proof
    assume a: "maze s = Some g \<and> wf_grid g \<and> passage g (x, y)"
    then have m: "maze s = Some g" and wf: "wf_grid g" and p: "passage g (x, y)" by simp_all
    show "\<exists>s'. on_canvas_click x y s = Inr s'
                \<and> (selection_mode s = Some ''start'' \<longrightarrow> start_point s' = Some (x, y))
                \<and> (selection_mode s \<noteq> Some ''start'' \<longrightarrow> start_point s' = start_point s)
                \<and> (selection_mode s = Some ''end'' \<longrightarrow> end_point s' = Some (x, y))
                \<and> (selection_mode s \<noteq> Some ''end'' \<longrightarrow> end_point s' = end_point s)"
      unfolding click_passage[OF m wf p]
      by (cases "selection_mode s") auto
  qed
  have c6: "maze s = Some g \<and> wf_grid g \<and> 0 \<le> x \<and> 0 \<le> y \<and> on_canvas_click x y s = Inr s'
      \<longrightarrow> maze s' = Some g
          \<and> (start_point s' = start_point s \<or> start_point s' = Some (x, y) \<and> passage g (x, y))
          \<and> (end_point s' = end_point s \<or> end_point s' = Some (x, y) \<and> passage g (x, y))"
  proof
    assume "maze s = Some g \<and> wf_grid g \<and> 0 \<le> x \<and> 0 \<le> y \<and> on_canvas_click x y s = Inr s'"
    then have "maze s = Some g" "wf_grid g" "0 \<le> x" "0 \<le> y" "on_canvas_click x y s = Inr s'"
      by simp_all
    then show "maze s' = Some g
          \<and> (start_point s' = start_point s \<or> start_point s' = Some (x, y) \<and> passage g (x, y))
          \<and> (end_point s' = end_point s \<or> end_point s' = Some (x, y) \<and> passage g (x, y))"
      by (rule click_returns)
  qed
  have c7: "points_ok s \<and> 0 \<le> x \<and> 0 \<le> y \<and> on_canvas_click x y s = Inr s' \<longrightarrow> points_ok s'"
  proof
    assume a: "points_ok s \<and> 0 \<le> x \<and> 0 \<le> y \<and> on_canvas_click x y s = Inr s'"
    show "points_ok s'"
    proof (cases "maze s")
      case None
      with a have "s' = s" by (simp add: on_canvas_click_def)
      with a show ?thesis by simp
    next
      case (Some g')
      with a have wf: "wf_grid g'" by (simp add: points_ok_def)
      from a have "0 \<le> x" "0 \<le> y" "on_canvas_click x y s = Inr s'" by simp_all
      from click_returns[OF Some wf this] a Some wf show ?thesis
        by (auto simp: points_ok_def split: option.splits)
    qed
  qed
  have c8: "on_generate_maze w0 h0 r s = Inr s2
      \<longrightarrow> points_ok s2 \<and> start_point s2 = None \<and> end_point s2 = None"
  proof
    assume a: "on_generate_maze w0 h0 r s = Inr s2"
    then obtain g' where g': "generate_maze w0 h0 r = Inr g'"
      by (cases "generate_maze w0 h0 r") (auto simp: on_generate_maze_def)
    from generate_wf[OF g'] a g'
    show "points_ok s2 \<and> start_point s2 = None \<and> end_point s2 = None"
      by (auto simp: on_generate_maze_def points_ok_def)
  qed
  show ?thesis by (intro conjI c1 c2 c3 c4 c5 c6 c7 c8)
qed

text \<open>A session on the 5x5 maze that \<open>generate_maze 5 5\<close> returns when every random choice
  takes the first candidate: the maze is generated, (1,1) is chosen as the start, then (3,1)
  as the end.\<close>

definition maze5 :: grid where
  "maze5 = [[1, 1, 1, 1, 1], [1, 0, 0, 0, 1], [1, 0, 1, 1, 1], [1, 0, 0, 0, 1], [1, 1, 1, 1, 1]]"

definition shown :: app where
  "shown = initial\<lparr>maze := Some maze5\<rparr>"

definition start_chosen :: app where
  "start_chosen = shown\<lparr>start_point := Some (1, 1)\<rparr>"

definition both_chosen :: app where
  "both_chosen = start_chosen\<lparr>end_point := Some (3, 1)\<rparr>"

lemma session_generate: "on_generate_maze 5 5 id initial = Inr shown"
proof -
  have "generate_maze 5 5 id = Inr maze5" by code_simp
  then show ?thesis by (simp add: on_generate_maze_def shown_def initial_def)
qed

lemma session_start: "on_canvas_click 1 1 (on_select_start shown) = Inr start_chosen"
  by (simp add: on_canvas_click_def on_select_start_def start_chosen_def shown_def initial_def
      maze5_def get2_def py_get_def py_index_def)

lemma session_end: "on_canvas_click 3 1 (on_select_end start_chosen) = Inr both_chosen"
  by (simp add: on_canvas_click_def on_select_end_def both_chosen_def start_chosen_def shown_def
      initial_def maze5_def get2_def py_get_def py_index_def)

lemma wf_maze5: "wf_grid maze5"
  by (simp add: wf_grid_def maze5_def)

theorem solve_refused_only_when_missing_witness:
  "on_generate_maze 5 5 id initial = Inr shown \<and> points_ok shown
   \<and> on_canvas_click 1 1 (on_select_start shown) = Inr start_chosen
   \<and> on_solve_maze 0 0 start_chosen
       = Some (Inr (ShowError ''Please select both start and end points!'', start_chosen))
   \<and> on_canvas_click 3 1 (on_select_end start_chosen) = Inr both_chosen
   \<and> points_ok both_chosen \<and> end_point both_chosen = Some (3, 1) \<and> passage maze5 (3, 1)
   \<and> on_canvas_click 0 0 (on_select_start both_chosen) = Inr (on_select_start both_chosen)
   \<and> on_canvas_click 5 0 (on_select_start both_chosen) = Inl IndexError
   \<and> on_solve_maze 0 0 both_chosen = animate ''BFS'' 0 (begin_search 0 (1, 1) both_chosen)"
proof -
  have m: "maze (on_select_start both_chosen) = Some maze5" "maze (on_select_end start_chosen) = Some maze5"
    "maze both_chosen = Some maze5" "maze start_chosen = Some maze5"
    by (simp_all add: on_select_start_def on_select_end_def both_chosen_def start_chosen_def shown_def)
  have pts: "start_point start_chosen = Some (1, 1)" "end_point start_chosen = None"
    "start_point both_chosen = Some (1, 1)" "end_point both_chosen = Some (3, 1)"
    "algorithm_var both_chosen = ''BFS''"
    by (simp_all add: both_chosen_def start_chosen_def shown_def initial_def)
  have wall: "inside maze5 (0, 0)" "\<not> passage maze5 (0, 0)" "\<not> inside maze5 (5, 0)"
    "passage maze5 (3, 1)" "passage maze5 (1, 1)"
    by (simp_all add: inside_def passage_def maze5_def)
  have ok0: "points_ok (on_select_end start_chosen)"
    using wall(5) wf_maze5
    by (simp add: points_ok_def on_select_end_def start_chosen_def shown_def initial_def)
  have gen: "points_ok shown"
    using solve_refused_only_when_missing[where s = initial and ?w0.0 = 5 and ?h0.0 = 5 and r = id
        and ?s2.0 = shown] session_generate
    by simp
  have refuse: "on_solve_maze 0 0 start_chosen
       = Some (Inr (ShowError ''Please select both start and end points!'', start_chosen))"
    using solve_refused_only_when_missing[where s = start_chosen and now = 0 and now' = 0] pts
    by (auto simp: on_solve_maze_def m)
  have ok3: "points_ok both_chosen"
    using solve_refused_only_when_missing[where s = "on_select_end start_chosen" and x = 3 and y = 1
        and s' = both_chosen] ok0 session_end
    by simp
  have ign: "on_canvas_click 0 0 (on_select_start both_chosen) = Inr (on_select_start both_chosen)"
    using solve_refused_only_when_missing[where s = "on_select_start both_chosen" and g = maze5
        and x = 0 and y = 0] m wf_maze5 wall
    by simp
  have out: "on_canvas_click 5 0 (on_select_start both_chosen) = Inl IndexError"
    using solve_refused_only_when_missing[where s = "on_select_start both_chosen" and g = maze5
        and x = 5 and y = 0] m wf_maze5 wall
    by simp
  have go: "on_solve_maze 0 0 both_chosen = animate ''BFS'' 0 (begin_search 0 (1, 1) both_chosen)"
    using solve_refused_only_when_missing[where s = both_chosen and st = "(1, 1)" and now = 0
        and now' = 0] m pts
    by simp
  from session_generate gen session_start refuse session_end ok3 pts(4) wall(4) ign out go
  show ?thesis by (intro conjI)
qed

text \<open>The claim as stated: choosing a wall cell or a cell outside the grid as the start
  fails with a notification, and the solve is not started. In the session above, with the
  start button pressed again, the click on the wall cell (0,0) returns with nothing shown and
  nothing changed, and the solve that follows starts: its first step runs from the old start
  (1,1) and paints (2,1) and (1,2). The click on the cell (5,0) outside the grid raises
  IndexError.\<close>

theorem wall_click_ignored_solve_starts:
  "on_generate_maze 5 5 id initial = Inr shown
   \<and> on_canvas_click 1 1 (on_select_start shown) = Inr start_chosen
   \<and> on_canvas_click 3 1 (on_select_end start_chosen) = Inr both_chosen
   \<and> \<not> passage maze5 (0, 0)
   \<and> on_canvas_click 0 0 (on_select_start both_chosen) = Inr (on_select_start both_chosen)
   \<and> (case on_solve_maze 0 0 (on_select_start both_chosen) of
        Some (Inr (ev, s)) \<Rightarrow> ev = Visited [(2, 1), (1, 2)] \<and> solving s
                               \<and> start_point s = Some (1, 1)
      | _ \<Rightarrow> False)
   \<and> on_canvas_click 5 0 (on_select_start both_chosen) = Inl IndexError"
proof -
  have w: "\<not> passage maze5 (0, 0)" by (simp add: passage_def maze5_def)
  have ign: "on_canvas_click 0 0 (on_select_start both_chosen) = Inr (on_select_start both_chosen)"
    by (simp add: on_canvas_click_def on_select_start_def both_chosen_def start_chosen_def
        shown_def initial_def maze5_def get2_def py_get_def py_index_def)
  have go: "(case on_solve_maze 0 0 (on_select_start both_chosen) of
        Some (Inr (ev, s)) \<Rightarrow> ev = Visited [(2, 1), (1, 2)] \<and> solving s
                               \<and> start_point s = Some (1, 1)
      | _ \<Rightarrow> False)"
    by code_simp
  have out: "on_canvas_click 5 0 (on_select_start both_chosen) = Inl IndexError"
    by (simp add: on_canvas_click_def on_select_start_def both_chosen_def start_chosen_def
        shown_def initial_def maze5_def get2_def py_get_def py_index_def)
  from session_generate session_start session_end w ign go out show ?thesis by (intro conjI)
qed

section \<open>The neighbour loops on a well-formed grid\<close>

definition nbrs :: "coord \<Rightarrow> (int \<times> int) list \<Rightarrow> coord list" where
  "nbrs cur ds = map (\<lambda>d. (fst cur + fst d, snd cur + snd d)) ds"

lemma nbrs_Nil: "nbrs cur [] = []"
  by (simp add: nbrs_def)

lemma nbrs_Cons: "nbrs cur (d # ds) = (fst cur + fst d, snd cur + snd d) # nbrs cur ds"
  by (simp add: nbrs_def)

lemma nbrs_directions:
  "nbrs cur directions
   = [(fst cur + 1, snd cur), (fst cur, snd cur + 1), (fst cur - 1, snd cur), (fst cur, snd cur - 1)]"
  by (simp add: nbrs_def directions_def)

lemma distinct_nbrs_directions: "distinct (nbrs cur directions)"
  by (simp add: nbrs_directions)

lemma set_nbrs_directions: "set (nbrs cur directions) = {n. adjacent cur n}"
proof (intro set_eqI iffI)
  fix n assume "n \<in> set (nbrs cur directions)"
  then show "n \<in> {n. adjacent cur n}"
    by (auto simp: nbrs_directions adjacent_def)
next
  fix n assume "n \<in> {n. adjacent cur n}"
  then have a: "\<bar>fst cur - fst n\<bar> + \<bar>snd cur - snd n\<bar> = 1" by (simp add: adjacent_def)
  then consider "fst n = fst cur + 1 \<and> snd n = snd cur" | "fst n = fst cur \<and> snd n = snd cur + 1"
    | "fst n = fst cur - 1 \<and> snd n = snd cur" | "fst n = fst cur \<and> snd n = snd cur - 1"
    by linarith
  then show "n \<in> set (nbrs cur directions)"
    by cases (auto simp: nbrs_directions prod_eq_iff)
qed

text \<open>One pass of the loop body for a neighbour \<open>n\<close>, on a well-formed grid.\<close>

lemma probe_wf:
  assumes "wf_grid g"
  shows "(case in_bounds (Some g) n of
            Inl e \<Rightarrow> Inl e
          | Inr ok \<Rightarrow> if ok then (case cell_at (Some g) n of Inl e \<Rightarrow> Inl e | Inr v \<Rightarrow> A v) else B)
         = (if inside g n then A (cellv g n) else B)"
  using in_bounds_wf[OF assms, of n] cell_at_wf[OF assms, of n]
  by (simp add: cellv_def)

lemma discover_Cons_wf:
  assumes "wf_grid g"
  shows "discover (Some g) cur (ps, q, seen) (d # ds) =
          (let n = (fst cur + fst d, snd cur + snd d) in
           if passage g n \<and> ps n = None
           then discover (Some g) cur (ps(n \<mapsto> Some cur), q @ [n], seen @ [n]) ds
           else discover (Some g) cur (ps, q, seen) ds)"
  unfolding discover.simps Let_def probe_wf[OF assms] prod.case
  by (simp add: passage_cellv)

definition fresh :: "grid \<Rightarrow> (coord \<Rightarrow> coord option option) \<Rightarrow> coord list \<Rightarrow> coord list" where
  "fresh g ps ns = filter (\<lambda>n. passage g n \<and> ps n = None) ns"

definition adopt :: "(coord \<Rightarrow> coord option option) \<Rightarrow> coord \<Rightarrow> coord list \<Rightarrow> coord \<Rightarrow> coord option option" where
  "adopt ps cur new = (\<lambda>x. if x \<in> set new then Some (Some cur) else ps x)"

lemma discover_wf:
  assumes "wf_grid g" and "distinct (nbrs cur ds)"
  shows "discover (Some g) cur (ps, q, seen) ds
         = Inr (adopt ps cur (fresh g ps (nbrs cur ds)), q @ fresh g ps (nbrs cur ds),
                seen @ fresh g ps (nbrs cur ds))"
  using assms(2)
proof (induction ds arbitrary: ps q seen)
  case Nil
  show ?case by (simp add: nbrs_Nil fresh_def adopt_def)
next
  case (Cons d ds)
  let ?n = "(fst cur + fst d, snd cur + snd d)"
  from Cons.prems have nin: "?n \<notin> set (nbrs cur ds)" and dis: "distinct (nbrs cur ds)"
    by (simp_all add: nbrs_Cons)
  show ?case
  proof (cases "passage g ?n \<and> ps ?n = None")
    case False
    then have f: "fresh g ps (nbrs cur (d # ds)) = fresh g ps (nbrs cur ds)"
      by (auto simp: fresh_def nbrs_Cons)
    show ?thesis
      unfolding discover_Cons_wf[OF assms(1)] Let_def if_not_P[OF False] f
      by (rule Cons.IH[OF dis])
  next
    case True
    have same: "fresh g (ps(?n \<mapsto> Some cur)) (nbrs cur ds) = fresh g ps (nbrs cur ds)"
      unfolding fresh_def using nin by (intro filter_cong) auto
    have f: "fresh g ps (nbrs cur (d # ds)) = ?n # fresh g ps (nbrs cur ds)"
      using True by (simp add: fresh_def nbrs_Cons)
    have a: "adopt (ps(?n \<mapsto> Some cur)) cur (fresh g ps (nbrs cur ds))
             = adopt ps cur (?n # fresh g ps (nbrs cur ds))"
      by (auto simp: adopt_def fun_eq_iff)
    have "discover (Some g) cur (ps(?n \<mapsto> Some cur), q @ [?n], seen @ [?n]) ds
          = Inr (adopt (ps(?n \<mapsto> Some cur)) cur (fresh g (ps(?n \<mapsto> Some cur)) (nbrs cur ds)),
                 (q @ [?n]) @ fresh g (ps(?n \<mapsto> Some cur)) (nbrs cur ds),
                 (seen @ [?n]) @ fresh g (ps(?n \<mapsto> Some cur)) (nbrs cur ds))"
      by (rule Cons.IH[OF dis])
    also have "\<dots> = Inr (adopt ps cur (?n # fresh g ps (nbrs cur ds)),
                          q @ ?n # fresh g ps (nbrs cur ds), seen @ ?n # fresh g ps (nbrs cur ds))"
      unfolding same a by simp
    finally show ?thesis
      unfolding discover_Cons_wf[OF assms(1)] Let_def if_P[OF True] f .
  qed
qed

lemma set_fresh_directions:
  "set (fresh g ps (nbrs cur directions)) = {n. adjacent cur n \<and> passage g n \<and> ps n = None}"
  by (auto simp: fresh_def set_nbrs_directions)

lemma distinct_fresh_directions: "distinct (fresh g ps (nbrs cur directions))"
  by (simp add: fresh_def distinct_nbrs_directions)

definition better :: "(coord \<Rightarrow> int option) \<Rightarrow> int \<Rightarrow> coord \<Rightarrow> bool" where
  "better dm c n = (case dm n of None \<Rightarrow> True | Some old \<Rightarrow> c < old)"

definition improved :: "grid \<Rightarrow> (coord \<Rightarrow> int option) \<Rightarrow> int \<Rightarrow> coord list \<Rightarrow> coord list" where
  "improved g dm c ns = filter (\<lambda>n. passage g n \<and> better dm c n) ns"

definition settle :: "(coord \<Rightarrow> int option) \<Rightarrow> int \<Rightarrow> coord list \<Rightarrow> coord \<Rightarrow> int option" where
  "settle dm c new = (\<lambda>x. if x \<in> set new then Some c else dm x)"

definition manhattan :: "coord \<Rightarrow> coord \<Rightarrow> int" where
  "manhattan n e = \<bar>fst n - fst e\<bar> + \<bar>snd n - snd e\<bar>"

lemma relax_Cons_wf:
  assumes "wf_grid g"
  shows "relax (Some g) cost cur (dm, ps, h, seen) (d # ds) =
          (let n = (fst cur + fst d, snd cur + snd d) in
           if passage g n \<and> better dm (cost + 1) n
           then relax (Some g) cost cur
                  (dm(n \<mapsto> cost + 1), ps(n \<mapsto> Some cur), h @ [(cost + 1, n)], seen @ [n]) ds
           else relax (Some g) cost cur (dm, ps, h, seen) ds)"
  unfolding relax.simps Let_def probe_wf[OF assms] prod.case
  by (simp add: passage_cellv better_def)

lemma improved_upd:
  assumes "n \<notin> set ns"
  shows "improved g (dm(n \<mapsto> v)) c ns = improved g dm c ns"
  unfolding improved_def using assms by (intro filter_cong) (auto simp: better_def)

lemma relax_wf:
  assumes "wf_grid g" and "distinct (nbrs cur ds)"
  shows "relax (Some g) cost cur (dm, ps, h, seen) ds
         = Inr (settle dm (cost + 1) (improved g dm (cost + 1) (nbrs cur ds)),
                adopt ps cur (improved g dm (cost + 1) (nbrs cur ds)),
                h @ map (\<lambda>n. (cost + 1, n)) (improved g dm (cost + 1) (nbrs cur ds)),
                seen @ improved g dm (cost + 1) (nbrs cur ds))"
  using assms(2)
proof (induction ds arbitrary: dm ps h seen)
  case Nil
  show ?case by (simp add: nbrs_Nil improved_def adopt_def settle_def)
next
  case (Cons d ds)
  let ?n = "(fst cur + fst d, snd cur + snd d)"
  let ?c = "cost + 1"
  let ?I = "improved g dm ?c (nbrs cur ds)"
  from Cons.prems have nin: "?n \<notin> set (nbrs cur ds)" and dis: "distinct (nbrs cur ds)"
    by (simp_all add: nbrs_Cons)
  show ?case
  proof (cases "passage g ?n \<and> better dm ?c ?n")
    case False
    then have f: "improved g dm ?c (nbrs cur (d # ds)) = ?I"
      by (auto simp: improved_def nbrs_Cons)
    show ?thesis
      unfolding relax_Cons_wf[OF assms(1)] Let_def if_not_P[OF False] f
      by (rule Cons.IH[OF dis])
  next
    case True
    have same: "improved g (dm(?n \<mapsto> ?c)) ?c (nbrs cur ds) = ?I"
      by (rule improved_upd[OF nin])
    have f: "improved g dm ?c (nbrs cur (d # ds)) = ?n # ?I"
      using True by (simp add: improved_def nbrs_Cons)
    have a: "adopt (ps(?n \<mapsto> Some cur)) cur ?I = adopt ps cur (?n # ?I)"
      by (auto simp: adopt_def fun_eq_iff)
    have b: "settle (dm(?n \<mapsto> ?c)) ?c ?I = settle dm ?c (?n # ?I)"
      by (auto simp: settle_def fun_eq_iff)
    have "relax (Some g) cost cur (dm(?n \<mapsto> ?c), ps(?n \<mapsto> Some cur), h @ [(?c, ?n)], seen @ [?n]) ds
          = Inr (settle (dm(?n \<mapsto> ?c)) ?c (improved g (dm(?n \<mapsto> ?c)) ?c (nbrs cur ds)),
                 adopt (ps(?n \<mapsto> Some cur)) cur (improved g (dm(?n \<mapsto> ?c)) ?c (nbrs cur ds)),
                 (h @ [(?c, ?n)]) @ map (\<lambda>n. (?c, n)) (improved g (dm(?n \<mapsto> ?c)) ?c (nbrs cur ds)),
                 (seen @ [?n]) @ improved g (dm(?n \<mapsto> ?c)) ?c (nbrs cur ds))"
      by (rule Cons.IH[OF dis])
    also have "\<dots> = Inr (settle dm ?c (?n # ?I), adopt ps cur (?n # ?I),
                          h @ map (\<lambda>n. (?c, n)) (?n # ?I), seen @ ?n # ?I)"
      unfolding same a b by simp
    finally show ?thesis
      unfolding relax_Cons_wf[OF assms(1)] Let_def if_P[OF True] f .
  qed
qed

lemma relax_astar_Cons_wf:
  assumes "wf_grid g"
  shows "relax_astar (Some g) (Some e) gc cur (dm, ps, h, seen) (d # ds) =
          (let n = (fst cur + fst d, snd cur + snd d) in
           if passage g n \<and> better dm (gc + 1) n
           then relax_astar (Some g) (Some e) gc cur
                  (dm(n \<mapsto> gc + 1), ps(n \<mapsto> Some cur),
                   h @ [(gc + 1 + manhattan n e, gc + 1, n)], seen @ [n]) ds
           else relax_astar (Some g) (Some e) gc cur (dm, ps, h, seen) ds)"
  unfolding relax_astar.simps Let_def probe_wf[OF assms] prod.case option.case
  by (simp add: passage_cellv better_def manhattan_def)

lemma relax_astar_wf:
  assumes "wf_grid g" and "distinct (nbrs cur ds)"
  shows "relax_astar (Some g) (Some e) gc cur (dm, ps, h, seen) ds
         = Inr (settle dm (gc + 1) (improved g dm (gc + 1) (nbrs cur ds)),
                adopt ps cur (improved g dm (gc + 1) (nbrs cur ds)),
                h @ map (\<lambda>n. (gc + 1 + manhattan n e, gc + 1, n)) (improved g dm (gc + 1) (nbrs cur ds)),
                seen @ improved g dm (gc + 1) (nbrs cur ds))"
  using assms(2)
proof (induction ds arbitrary: dm ps h seen)
  case Nil
  show ?case by (simp add: nbrs_Nil improved_def adopt_def settle_def)
next
  case (Cons d ds)
  let ?n = "(fst cur + fst d, snd cur + snd d)"
  let ?c = "gc + 1"
  let ?I = "improved g dm ?c (nbrs cur ds)"
  let ?e = "\<lambda>n. (?c + manhattan n e, ?c, n)"
  from Cons.prems have nin: "?n \<notin> set (nbrs cur ds)" and dis: "distinct (nbrs cur ds)"
    by (simp_all add: nbrs_Cons)
  show ?case
  proof (cases "passage g ?n \<and> better dm ?c ?n")
    case False
    then have f: "improved g dm ?c (nbrs cur (d # ds)) = ?I"
      by (auto simp: improved_def nbrs_Cons)
    show ?thesis
      unfolding relax_astar_Cons_wf[OF assms(1)] Let_def if_not_P[OF False] f
      by (rule Cons.IH[OF dis])
  next
    case True
    have same: "improved g (dm(?n \<mapsto> ?c)) ?c (nbrs cur ds) = ?I"
      by (rule improved_upd[OF nin])
    have f: "improved g dm ?c (nbrs cur (d # ds)) = ?n # ?I"
      using True by (simp add: improved_def nbrs_Cons)
    have a: "adopt (ps(?n \<mapsto> Some cur)) cur ?I = adopt ps cur (?n # ?I)"
      by (auto simp: adopt_def fun_eq_iff)
    have b: "settle (dm(?n \<mapsto> ?c)) ?c ?I = settle dm ?c (?n # ?I)"
      by (auto simp: settle_def fun_eq_iff)
    have "relax_astar (Some g) (Some e) gc cur
            (dm(?n \<mapsto> ?c), ps(?n \<mapsto> Some cur), h @ [?e ?n], seen @ [?n]) ds
          = Inr (settle (dm(?n \<mapsto> ?c)) ?c (improved g (dm(?n \<mapsto> ?c)) ?c (nbrs cur ds)),
                 adopt (ps(?n \<mapsto> Some cur)) cur (improved g (dm(?n \<mapsto> ?c)) ?c (nbrs cur ds)),
                 (h @ [?e ?n]) @ map ?e (improved g (dm(?n \<mapsto> ?c)) ?c (nbrs cur ds)),
                 (seen @ [?n]) @ improved g (dm(?n \<mapsto> ?c)) ?c (nbrs cur ds))"
      by (rule Cons.IH[OF dis])
    also have "\<dots> = Inr (settle dm ?c (?n # ?I), adopt ps cur (?n # ?I),
                          h @ map ?e (?n # ?I), seen @ ?n # ?I)"
      unfolding same a b by simp
    finally show ?thesis
      unfolding relax_astar_Cons_wf[OF assms(1)] Let_def if_P[OF True] f .
  qed
qed

lemma set_improved_directions:
  "set (improved g dm c (nbrs cur directions)) = {n. adjacent cur n \<and> passage g n \<and> better dm c n}"
  by (auto simp: improved_def set_nbrs_directions)

lemma distinct_improved_directions: "distinct (improved g dm c (nbrs cur directions))"
  by (simp add: improved_def distinct_nbrs_directions)

section \<open>Parent links and the backward walk\<close>

text \<open>\<open>hops ps n v\<close> follows \<open>n\<close> parent links from \<open>v\<close>; \<open>trail ps n v\<close> lists the cells met on
  the way, \<open>v\<close> first.\<close>

fun hops :: "(coord \<Rightarrow> coord option option) \<Rightarrow> nat \<Rightarrow> coord \<Rightarrow> coord option" where
  "hops ps 0 v = Some v"
| "hops ps (Suc n) v = (case ps v of Some (Some p) \<Rightarrow> hops ps n p | _ \<Rightarrow> None)"

fun trail :: "(coord \<Rightarrow> coord option option) \<Rightarrow> nat \<Rightarrow> coord \<Rightarrow> coord list" where
  "trail ps 0 v = [v]"
| "trail ps (Suc n) v = v # (case ps v of Some (Some p) \<Rightarrow> trail ps n p | _ \<Rightarrow> [])"

text \<open>\<open>self.parents.get(c)\<close>.\<close>

definition parent_of :: "(coord \<Rightarrow> coord option option) \<Rightarrow> coord \<Rightarrow> coord option" where
  "parent_of ps c = (case ps c of None \<Rightarrow> None | Some v \<Rightarrow> v)"

lemma walk_back_unfold:
  "walk_back ps (Some c) path = walk_back ps (parent_of ps c) (path @ [c])"
  by (subst walk_back.simps) (simp add: parent_of_def)

lemma walk_back_None: "walk_back ps None path = Some path"
  by (subst walk_back.simps) simp

lemma walk_back_hops:
  assumes "hops ps n v = Some r" and "parent_of ps r = None"
  shows "walk_back ps (Some v) acc = Some (acc @ trail ps n v)"
  using assms
proof (induction n arbitrary: v acc)
  case 0
  then show ?case by (simp add: walk_back_unfold walk_back_None)
next
  case (Suc n)
  from Suc.prems(1) obtain p where p: "ps v = Some (Some p)" and h: "hops ps n p = Some r"
    by (auto split: option.splits)
  from p have "parent_of ps v = Some p" by (simp add: parent_of_def)
  then have "walk_back ps (Some v) acc = walk_back ps (Some p) (acc @ [v])"
    by (simp add: walk_back_unfold)
  also have "\<dots> = Some ((acc @ [v]) @ trail ps n p)"
    by (rule Suc.IH[OF h Suc.prems(2)])
  finally show ?case using p by simp
qed

lemma trail_length:
  assumes "hops ps n v = Some r"
  shows "length (trail ps n v) = Suc n"
  using assms by (induction n arbitrary: v) (auto split: option.splits)

lemma trail_hd: "hd (trail ps n v) = v"
  by (cases n) simp_all

lemma trail_last:
  assumes "hops ps n v = Some r"
  shows "last (trail ps n v) = r"
  using assms
proof (induction n arbitrary: v)
  case 0
  then show ?case by simp
next
  case (Suc n)
  from Suc.prems obtain p where p: "ps v = Some (Some p)" and h: "hops ps n p = Some r"
    by (auto split: option.splits)
  from trail_length[OF h] have "trail ps n p \<noteq> []" by auto
  with Suc.IH[OF h] p show ?case by simp
qed

text \<open>A list in which every cell is followed by its recorded parent.\<close>

fun linked :: "(coord \<Rightarrow> coord option option) \<Rightarrow> coord list \<Rightarrow> bool" where
  "linked ps [] = True"
| "linked ps [c] = True"
| "linked ps (c # d # cs) = (ps c = Some (Some d) \<and> linked ps (d # cs))"

lemma trail_linked:
  assumes "hops ps n v = Some r"
  shows "linked ps (trail ps n v)"
  using assms
proof (induction n arbitrary: v)
  case 0
  then show ?case by simp
next
  case (Suc n)
  from Suc.prems obtain p where p: "ps v = Some (Some p)" and h: "hops ps n p = Some r"
    by (auto split: option.splits)
  from trail_length[OF h] obtain x xs where t: "trail ps n p = x # xs"
    by (cases "trail ps n p") auto
  from trail_hd[of ps n p] t have "x = p" by simp
  with Suc.IH[OF h] p t show ?case by simp
qed

lemma hops_extend:
  assumes "hops ps n v = Some r" and "\<And>x. ps x \<noteq> None \<Longrightarrow> ps' x = ps x" and "ps v \<noteq> None \<or> n = 0"
    and "\<And>x p. ps x = Some (Some p) \<Longrightarrow> ps p \<noteq> None"
  shows "hops ps' n v = Some r"
  using assms(1,3)
proof (induction n arbitrary: v)
  case 0
  then show ?case by simp
next
  case (Suc n)
  from Suc.prems(1) obtain p where p: "ps v = Some (Some p)" and h: "hops ps n p = Some r"
    by (auto split: option.splits)
  from p assms(2)[of v] have p': "ps' v = Some (Some p)" by simp
  from assms(4)[OF p] have "ps p \<noteq> None" .
  with Suc.IH[OF h] have "hops ps' n p = Some r" by simp
  with p' show ?case by simp
qed

lemma finish_eq:
  assumes "search_start_time s = Some t0"
  shows "finish now s =
          (case walk_back (parents s) (end_point s) [] of
             None \<Rightarrow> None
           | Some path \<Rightarrow> Some (Inr (Solved path, s\<lparr>solving := False, search_time := now - t0\<rparr>)))"
  using assms by (simp add: finish_def draw_solution_path_def Let_def)

section \<open>Breadth-first and depth-first search: what every state satisfies\<close>

text \<open>The facts about the parent map and the frontier of the two searches that hold in
  every state, whichever frontier cell is taken next.\<close>

definition plain_inv :: "grid \<Rightarrow> coord \<Rightarrow> (coord \<Rightarrow> coord option option) \<Rightarrow> coord list \<Rightarrow> bool" where
  "plain_inv g st ps q =
     (ps st = Some None \<and> (\<forall>v. ps v = Some None \<longrightarrow> v = st)
      \<and> (\<forall>v \<in> set q. ps v \<noteq> None) \<and> distinct q
      \<and> (\<forall>v. ps v \<noteq> None \<longrightarrow> reach g st v \<and> (\<exists>n. hops ps n v = Some st))
      \<and> (\<forall>v p. ps v = Some (Some p) \<longrightarrow> ps p \<noteq> None \<and> adjacent p v \<and> passage g v))"

lemma plain_inv_init: "plain_inv g st [st \<mapsto> None] [st]"
proof -
  have "hops [st \<mapsto> None] 0 st = Some st" by simp
  then have "\<exists>n. hops [st \<mapsto> None] n st = Some st" by blast
  then show ?thesis by (auto simp: plain_inv_def reach_start)
qed

lemma plain_inv_drop:
  assumes "plain_inv g st ps q" and "set rest \<subseteq> set q" and "distinct rest"
  shows "plain_inv g st ps rest"
  using assms unfolding plain_inv_def by blast

lemma adopt_old: "x \<notin> set new \<Longrightarrow> adopt ps cur new x = ps x"
  by (simp add: adopt_def)

lemma adopt_new: "x \<in> set new \<Longrightarrow> adopt ps cur new x = Some (Some cur)"
  by (simp add: adopt_def)

lemma plain_inv_step:
  assumes inv: "plain_inv g st ps q" and u: "u \<in> set q"
    and rest: "set rest \<subseteq> set q" "distinct rest"
    and new: "new = fresh g ps (nbrs u directions)"
  shows "plain_inv g st (adopt ps u new) (rest @ new)"
proof -
  let ?ps = "adopt ps u new"
  from inv have st: "ps st = Some None" and only: "\<forall>v. ps v = Some None \<longrightarrow> v = st"
    and qd: "\<forall>v \<in> set q. ps v \<noteq> None"
    and rh: "\<forall>v. ps v \<noteq> None \<longrightarrow> reach g st v \<and> (\<exists>n. hops ps n v = Some st)"
    and par: "\<forall>v p. ps v = Some (Some p) \<longrightarrow> ps p \<noteq> None \<and> adjacent p v \<and> passage g v"
    by (simp_all add: plain_inv_def)
  have newset: "set new = {n. adjacent u n \<and> passage g n \<and> ps n = None}"
    unfolding new by (rule set_fresh_directions)
  have dnew: "distinct new" unfolding new by (rule distinct_fresh_directions)
  have old: "\<And>x. ps x \<noteq> None \<Longrightarrow> ?ps x = ps x"
    using newset by (simp add: adopt_def)
  have pu: "ps u \<noteq> None" using qd u by blast
  from rh pu obtain k where ru: "reach g st u" and hu: "hops ps k u = Some st" by blast
  have par': "\<And>x p. ps x = Some (Some p) \<Longrightarrow> ps p \<noteq> None" using par by blast
  have ext: "\<And>n v. hops ps n v = Some st \<Longrightarrow> ps v \<noteq> None \<Longrightarrow> hops ?ps n v = Some st"
    using hops_extend[where ps = ps and ps' = ?ps] old par' by blast
  have c1: "?ps st = Some None" using st old by simp
  have c2: "\<forall>v. ?ps v = Some None \<longrightarrow> v = st"
  proof (intro allI impI)
    fix v assume a: "?ps v = Some None"
    then have "v \<notin> set new" by (auto simp: adopt_def)
    with a have "ps v = Some None" by (simp add: adopt_old)
    with only show "v = st" by blast
  qed
  have c3: "\<forall>v \<in> set (rest @ new). ?ps v \<noteq> None"
  proof
    fix v assume "v \<in> set (rest @ new)"
    then consider "v \<in> set new" | "v \<notin> set new" "v \<in> set q" using rest(1) by auto
    then show "?ps v \<noteq> None"
    proof cases
      case 1
      then show ?thesis by (simp add: adopt_new)
    next
      case 2
      with qd show ?thesis by (simp add: adopt_old)
    qed
  qed
  have c4: "distinct (rest @ new)"
  proof -
    have "set rest \<inter> set new = {}"
    proof (rule ccontr)
      assume "set rest \<inter> set new \<noteq> {}"
      then obtain x where x: "x \<in> set rest" "x \<in> set new" by blast
      from x(1) rest(1) qd have "ps x \<noteq> None" by blast
      moreover from x(2) newset have "ps x = None" by blast
      ultimately show False by simp
    qed
    with rest(2) dnew show ?thesis by simp
  qed
  have c5: "\<forall>v. ?ps v \<noteq> None \<longrightarrow> reach g st v \<and> (\<exists>n. hops ?ps n v = Some st)"
  proof (intro allI impI)
    fix v assume a: "?ps v \<noteq> None"
    show "reach g st v \<and> (\<exists>n. hops ?ps n v = Some st)"
    proof (cases "v \<in> set new")
      case True
      then have av: "adjacent u v" "passage g v" using newset by auto
      with ru have r: "reach g st v" by (auto intro: reach_step)
      from ext[OF hu pu] have "hops ?ps k u = Some st" .
      with True have "hops ?ps (Suc k) v = Some st" by (simp add: adopt_new)
      with r show ?thesis by blast
    next
      case False
      with a have pv: "ps v \<noteq> None" by (simp add: adopt_old)
      with rh obtain n where "reach g st v" "hops ps n v = Some st" by blast
      with ext[OF _ pv] show ?thesis by blast
    qed
  qed
  have c6: "\<forall>v p. ?ps v = Some (Some p) \<longrightarrow> ?ps p \<noteq> None \<and> adjacent p v \<and> passage g v"
  proof (intro allI impI)
    fix v p assume a: "?ps v = Some (Some p)"
    show "?ps p \<noteq> None \<and> adjacent p v \<and> passage g v"
    proof (cases "v \<in> set new")
      case True
      with a have "p = u" by (simp add: adopt_new)
      with True newset pu old show ?thesis by auto
    next
      case False
      with a have "ps v = Some (Some p)" by (simp add: adopt_old)
      with par have "ps p \<noteq> None" "adjacent p v" "passage g v" by blast+
      with old show ?thesis by simp
    qed
  qed
  from c1 c2 c3 c4 c5 c6 show ?thesis unfolding plain_inv_def by blast
qed

text \<open>The two callbacks on a state with a well-formed maze.\<close>

lemma animate_bfs_empty:
  assumes "solving s" and "\<not> paused s" and "search_nodes s = Cells []"
  shows "animate_bfs now s = Some (Inr (NoSolution, s\<lparr>solving := False\<rparr>))"
  using assms by (simp add: animate_bfs_def)

lemma animate_bfs_goal:
  assumes "solving s" and "\<not> paused s" and "search_nodes s = Cells (u # rest)"
    and "end_point s = Some u"
  shows "animate_bfs now s = finish now (s\<lparr>search_nodes := Cells rest\<rparr>)"
  using assms by (simp add: animate_bfs_def)

lemma animate_bfs_expand:
  assumes "wf_grid g" and "maze s = Some g" and "solving s" and "\<not> paused s"
    and "search_nodes s = Cells (u # rest)" and "end_point s \<noteq> Some u"
  shows "animate_bfs now s =
           Some (Inr (Visited (fresh g (parents s) (nbrs u directions)),
                      s\<lparr>search_nodes := Cells (rest @ fresh g (parents s) (nbrs u directions)),
                        parents := adopt (parents s) u (fresh g (parents s) (nbrs u directions))\<rparr>))"
proof -
  have ne: "Some u \<noteq> end_point s" using assms(6) by auto
  show ?thesis
    unfolding animate_bfs_def
    using assms(2-5) ne
    by (simp add: discover_wf[OF assms(1) distinct_nbrs_directions] del: discover.simps)
qed

lemma animate_dfs_empty:
  assumes "solving s" and "\<not> paused s" and "search_nodes s = Cells []"
  shows "animate_dfs now s = Some (Inr (NoSolution, s\<lparr>solving := False\<rparr>))"
  using assms by (simp add: animate_dfs_def)

lemma animate_dfs_goal:
  assumes "solving s" and "\<not> paused s" and "search_nodes s = Cells q" and "q \<noteq> []"
    and "end_point s = Some (last q)"
  shows "animate_dfs now s = finish now (s\<lparr>search_nodes := Cells (butlast q)\<rparr>)"
proof -
  from assms(4) obtain c cs where q: "q = c # cs" by (cases q) auto
  show ?thesis
    unfolding animate_dfs_def using assms(1-3,5) unfolding q
    by (simp add: Let_def)
qed

lemma animate_dfs_expand:
  assumes "wf_grid g" and "maze s = Some g" and "solving s" and "\<not> paused s"
    and "search_nodes s = Cells q" and "q \<noteq> []" and "end_point s \<noteq> Some (last q)"
  shows "animate_dfs now s =
           Some (Inr (Visited (fresh g (parents s) (nbrs (last q) directions)),
                      s\<lparr>search_nodes := Cells (butlast q @ fresh g (parents s) (nbrs (last q) directions)),
                        parents := adopt (parents s) (last q) (fresh g (parents s) (nbrs (last q) directions))\<rparr>))"
proof -
  from assms(6) obtain c cs where q: "q = c # cs" by (cases q) auto
  have ne: "Some (last (c # cs)) \<noteq> end_point s" using assms(7) unfolding q by auto
  show ?thesis
    unfolding animate_dfs_def q
    using assms(2-5)[unfolded q] ne
    by (simp add: Let_def discover_wf[OF assms(1) distinct_nbrs_directions] del: discover.simps last.simps butlast.simps)
qed

section \<open>Dijkstra and A*: what every state satisfies\<close>

text \<open>\<open>walk g a n b\<close>: \<open>b\<close> is reached from \<open>a\<close> in exactly \<open>n\<close> moves, every cell entered
  being a passage.\<close>

inductive walk :: "grid \<Rightarrow> coord \<Rightarrow> nat \<Rightarrow> coord \<Rightarrow> bool" for g :: grid and a :: coord where
  walk_start: "walk g a 0 a"
| walk_step: "walk g a n b \<Longrightarrow> adjacent b c \<Longrightarrow> passage g c \<Longrightarrow> walk g a (Suc n) c"

lemma walk_reach: "walk g a n b \<Longrightarrow> reach g a b"
  by (induction rule: walk.induct) (auto intro: reach_start reach_step)

lemma reach_walk: "reach g a b \<Longrightarrow> \<exists>n. walk g a n b"
proof (induction rule: reach.induct)
  case reach_start
  show ?case using walk_start by blast
next
  case (reach_step b c)
  then show ?case using walk_step by blast
qed

lemma least_Min: "least e es = Min (set (e # es))"
  unfolding least_def by (rule Min.set_eq_fold[symmetric])

lemma least_in: "least e es \<in> set (e # es)"
  unfolding least_Min by (rule Min_in) simp_all

lemma least_le: "y \<in> set (e # es) \<Longrightarrow> least e es \<le> y"
  unfolding least_Min by (rule Min_le) simp_all

lemma heappop_eq: "heappop e es = (least e es, remove1 (least e es) (e # es))"
  by (simp add: heappop_def Let_def)

text \<open>The invariant on the distance map, the parent map and the list \<open>H\<close> of the pairs
  (accumulated cost, cell) in the priority queue; it does not depend on which pair is
  taken next.\<close>

definition cost_inv :: "grid \<Rightarrow> coord \<Rightarrow> (coord \<Rightarrow> int option) \<Rightarrow> (coord \<Rightarrow> coord option option)
                        \<Rightarrow> (int \<times> coord) list \<Rightarrow> bool" where
  "cost_inv g st dm ps H =
     (ps st = Some None \<and> dm st = Some 0
      \<and> (\<forall>v. ps v = Some None \<longrightarrow> v = st)
      \<and> (\<forall>v. (ps v \<noteq> None) = (dm v \<noteq> None))
      \<and> (\<forall>v p. ps v = Some (Some p) \<longrightarrow>
             (\<exists>dv dp. dm v = Some dv \<and> dm p = Some dp \<and> dp < dv) \<and> adjacent p v \<and> passage g v)
      \<and> (\<forall>v d. dm v = Some d \<longrightarrow> 0 \<le> d \<and> walk g st (nat d) v)
      \<and> (\<forall>(c, v) \<in> set H. (\<exists>d. dm v = Some d \<and> d \<le> c) \<and> walk g st (nat c) v))"

lemma cost_inv_init: "cost_inv g st [st \<mapsto> 0] [st \<mapsto> None] [(0, st)]"
  by (auto simp: cost_inv_def walk_start)

lemma cost_inv_drop:
  assumes "cost_inv g st dm ps H" and "set rest \<subseteq> set H"
  shows "cost_inv g st dm ps rest"
proof -
  from assms(1) have "\<forall>(c, v) \<in> set H. (\<exists>d. dm v = Some d \<and> d \<le> c) \<and> walk g st (nat c) v"
    by (simp add: cost_inv_def)
  with assms(2) have "\<forall>(c, v) \<in> set rest. (\<exists>d. dm v = Some d \<and> d \<le> c) \<and> walk g st (nat c) v"
    by blast
  with assms(1) show ?thesis by (simp add: cost_inv_def)
qed

lemma settle_old: "x \<notin> set new \<Longrightarrow> settle dm c new x = dm x"
  by (simp add: settle_def)

lemma settle_new: "x \<in> set new \<Longrightarrow> settle dm c new x = Some c"
  by (simp add: settle_def)

lemma adjacent_irrefl: "\<not> adjacent u u"
  by (simp add: adjacent_def)

lemma cost_inv_step:
  assumes inv: "cost_inv g st dm ps H" and u: "(c, u) \<in> set H"
    and rest: "set rest \<subseteq> set H"
    and new: "new = improved g dm (c + 1) (nbrs u directions)"
  shows "cost_inv g st (settle dm (c + 1) new) (adopt ps u new) (rest @ map (\<lambda>n. (c + 1, n)) new)"
proof -
  let ?dm = "settle dm (c + 1) new" and ?ps = "adopt ps u new"
  from inv have st: "ps st = Some None" "dm st = Some 0"
    and only: "\<forall>v. ps v = Some None \<longrightarrow> v = st"
    and same: "\<forall>v. (ps v \<noteq> None) = (dm v \<noteq> None)"
    and par: "\<forall>v p. ps v = Some (Some p) \<longrightarrow>
             (\<exists>dv dp. dm v = Some dv \<and> dm p = Some dp \<and> dp < dv) \<and> adjacent p v \<and> passage g v"
    and dw: "\<forall>v d. dm v = Some d \<longrightarrow> 0 \<le> d \<and> walk g st (nat d) v"
    and ent: "\<forall>(c, v) \<in> set H. (\<exists>d. dm v = Some d \<and> d \<le> c) \<and> walk g st (nat c) v"
    by (simp_all add: cost_inv_def)
  have newset: "set new = {n. adjacent u n \<and> passage g n \<and> better dm (c + 1) n}"
    unfolding new by (rule set_improved_directions)
  from ent u obtain du where du: "dm u = Some du" "du \<le> c" and wu: "walk g st (nat c) u"
    by fastforce
  from dw du(1) have du0: "0 \<le> du" by blast
  with du(2) have c0: "0 \<le> c" by simp
  have unew: "u \<notin> set new" using newset adjacent_irrefl by blast
  have stnew: "st \<notin> set new"
  proof
    assume "st \<in> set new"
    with newset have "better dm (c + 1) st" by blast
    with st(2) c0 show False by (simp add: better_def)
  qed
  have lower: "\<And>x d. x \<in> set new \<Longrightarrow> dm x = Some d \<Longrightarrow> c + 1 < d"
    using newset by (auto simp: better_def)
  have c1: "?ps st = Some None" "?dm st = Some 0"
    using st stnew by (simp_all add: adopt_old settle_old)
  have c2: "\<forall>v. ?ps v = Some None \<longrightarrow> v = st"
  proof (intro allI impI)
    fix v assume a: "?ps v = Some None"
    then have "v \<notin> set new" by (auto simp: adopt_def)
    with a have "ps v = Some None" by (simp add: adopt_old)
    with only show "v = st" by blast
  qed
  have c3: "\<forall>v. (?ps v \<noteq> None) = (?dm v \<noteq> None)"
  proof
    fix v show "(?ps v \<noteq> None) = (?dm v \<noteq> None)"
      using spec[OF same, of v] by (cases "v \<in> set new") (simp_all add: adopt_def settle_def)
  qed
  have dm_le: "\<And>v d. dm v = Some d \<Longrightarrow> \<exists>d'. ?dm v = Some d' \<and> d' \<le> d"
  proof -
    fix v d assume a: "dm v = Some d"
    show "\<exists>d'. ?dm v = Some d' \<and> d' \<le> d"
    proof (cases "v \<in> set new")
      case True
      with lower[OF True a] show ?thesis by (simp add: settle_new)
    next
      case False
      with a show ?thesis by (simp add: settle_old)
    qed
  qed
  have c4: "\<forall>v p. ?ps v = Some (Some p) \<longrightarrow>
             (\<exists>dv dp. ?dm v = Some dv \<and> ?dm p = Some dp \<and> dp < dv) \<and> adjacent p v \<and> passage g v"
  proof (intro allI impI)
    fix v p assume a: "?ps v = Some (Some p)"
    show "(\<exists>dv dp. ?dm v = Some dv \<and> ?dm p = Some dp \<and> dp < dv) \<and> adjacent p v \<and> passage g v"
    proof (cases "v \<in> set new")
      case True
      with a have p: "p = u" by (simp add: adopt_new)
      from True have "?dm v = Some (c + 1)" by (simp add: settle_new)
      moreover have "?dm u = Some du" using unew du(1) by (simp add: settle_old)
      ultimately show ?thesis using True newset du(2) p by auto
    next
      case False
      with a have pv: "ps v = Some (Some p)" by (simp add: adopt_old)
      with par obtain dv dp where d: "dm v = Some dv" "dm p = Some dp" "dp < dv"
        and ap: "adjacent p v" "passage g v"
        by blast
      from False d(1) have "?dm v = Some dv" by (simp add: settle_old)
      moreover from dm_le[OF d(2)] obtain dp' where "?dm p = Some dp'" "dp' \<le> dp" by blast
      ultimately show ?thesis using d(3) ap by auto
    qed
  qed
  have wnew: "\<And>v. v \<in> set new \<Longrightarrow> walk g st (nat (c + 1)) v"
  proof -
    fix v assume "v \<in> set new"
    with newset have "adjacent u v" "passage g v" by auto
    with wu have "walk g st (Suc (nat c)) v" by (rule walk_step)
    moreover have "nat (c + 1) = Suc (nat c)" using c0 by simp
    ultimately show "walk g st (nat (c + 1)) v" by simp
  qed
  have c5: "\<forall>v d. ?dm v = Some d \<longrightarrow> 0 \<le> d \<and> walk g st (nat d) v"
  proof (intro allI impI)
    fix v d assume a: "?dm v = Some d"
    show "0 \<le> d \<and> walk g st (nat d) v"
    proof (cases "v \<in> set new")
      case True
      with a have "d = c + 1" by (simp add: settle_new)
      with wnew[OF True] c0 show ?thesis by simp
    next
      case False
      with a have "dm v = Some d" by (simp add: settle_old)
      with dw show ?thesis by blast
    qed
  qed
  have c6: "\<forall>(c', v) \<in> set (rest @ map (\<lambda>n. (c + 1, n)) new).
              (\<exists>d. ?dm v = Some d \<and> d \<le> c') \<and> walk g st (nat c') v"
  proof (intro ballI, clarify)
    fix c' v assume "(c', v) \<in> set (rest @ map (\<lambda>n. (c + 1, n)) new)"
    then consider "(c', v) \<in> set H" | "c' = c + 1" "v \<in> set new" using rest by auto
    then show "(\<exists>d. ?dm v = Some d \<and> d \<le> c') \<and> walk g st (nat c') v"
    proof cases
      case 1
      with ent obtain d where d: "dm v = Some d" "d \<le> c'" and w: "walk g st (nat c') v"
        by fastforce
      from dm_le[OF d(1)] d(2) w show ?thesis by fastforce
    next
      case 2
      with wnew[OF 2(2)] show ?thesis by (simp add: settle_new)
    qed
  qed
  show ?thesis unfolding cost_inv_def by (intro conjI c1 c2 c3 c4 c5 c6)
qed

lemma cost_inv_hops:
  assumes inv: "cost_inv g st dm ps H" and "ps v \<noteq> None"
  shows "\<exists>n. hops ps n v = Some st"
proof -
  from inv have only: "\<forall>v. ps v = Some None \<longrightarrow> v = st"
    and par: "\<forall>v p. ps v = Some (Some p) \<longrightarrow>
             (\<exists>dv dp. dm v = Some dv \<and> dm p = Some dp \<and> dp < dv) \<and> adjacent p v \<and> passage g v"
    and dw: "\<forall>v d. dm v = Some d \<longrightarrow> 0 \<le> d \<and> walk g st (nat d) v"
    by (simp_all add: cost_inv_def)
  have "\<And>v. ps v \<noteq> None \<Longrightarrow> (case dm v of None \<Rightarrow> 0 | Some d \<Rightarrow> nat d) = m
              \<Longrightarrow> \<exists>n. hops ps n v = Some st" for m
  proof (induction m rule: less_induct)
    case (less m)
    from less.prems(1) obtain pv where pv: "ps v = Some pv" by auto
    show ?case
    proof (cases pv)
      case None
      with pv only have "v = st" by blast
      then have "hops ps 0 v = Some st" by simp
      then show ?thesis by blast
    next
      case (Some p)
      with pv have pp: "ps v = Some (Some p)" by simp
      with par obtain dv dp where d: "dm v = Some dv" "dm p = Some dp" "dp < dv" by blast
      from dw d(2) have "0 \<le> dp" by blast
      with d less.prems(2) have lt: "(case dm p of None \<Rightarrow> 0 | Some d \<Rightarrow> nat d) < m" by auto
      from inv have "\<forall>v. (ps v \<noteq> None) = (dm v \<noteq> None)" by (simp add: cost_inv_def)
      from spec[OF this, of p] d(2) have "ps p \<noteq> None" by simp
      from less.IH[OF lt this refl] obtain n where "hops ps n p = Some st" by blast
      with pp have "hops ps (Suc n) v = Some st" by simp
      then show ?thesis by blast
    qed
  qed
  with assms(2) show ?thesis by blast
qed

lemma remove1_least_subset: "set (remove1 (least x xs) (x # xs)) \<subseteq> set (x # xs)"
  by (rule set_remove1_subset)

lemma animate_dijkstra_empty:
  assumes "solving s" and "\<not> paused s" and "search_nodes s = Costs []"
  shows "animate_dijkstra now s = Some (Inr (NoSolution, s\<lparr>solving := False\<rparr>))"
  using assms by (simp add: animate_dijkstra_def)

lemma animate_dijkstra_goal:
  assumes "solving s" and "\<not> paused s" and "search_nodes s = Costs (x # xs)"
    and "heappop x xs = ((c, u), rest)" and "end_point s = Some u"
  shows "animate_dijkstra now s = finish now (s\<lparr>search_nodes := Costs rest\<rparr>)"
  using assms by (simp add: animate_dijkstra_def)

lemma animate_dijkstra_expand:
  assumes "wf_grid g" and "maze s = Some g" and "solving s" and "\<not> paused s"
    and "search_nodes s = Costs (x # xs)" and "heappop x xs = ((c, u), rest)"
    and "end_point s \<noteq> Some u"
    and "new = improved g (distances s) (c + 1) (nbrs u directions)"
  shows "animate_dijkstra now s =
           Some (Inr (Visited new,
                      s\<lparr>search_nodes := Costs (rest @ map (\<lambda>n. (c + 1, n)) new),
                        parents := adopt (parents s) u new,
                        distances := settle (distances s) (c + 1) new\<rparr>))"
proof -
  have ne: "Some u \<noteq> end_point s" using assms(7) by auto
  show ?thesis
    unfolding animate_dijkstra_def assms(8)
    using assms(2-6) ne
    by (simp add: relax_wf[OF assms(1) distinct_nbrs_directions] del: relax.simps)
qed

lemma animate_astar_empty:
  assumes "solving s" and "\<not> paused s" and "search_nodes s = FCosts []"
  shows "animate_astar now s = Some (Inr (NoSolution, s\<lparr>solving := False\<rparr>))"
  using assms by (simp add: animate_astar_def)

lemma animate_astar_goal:
  assumes "solving s" and "\<not> paused s" and "search_nodes s = FCosts (x # xs)"
    and "heappop x xs = ((f, c, u), rest)" and "end_point s = Some u"
  shows "animate_astar now s = finish now (s\<lparr>search_nodes := FCosts rest\<rparr>)"
  using assms by (simp add: animate_astar_def)

lemma animate_astar_expand:
  assumes "wf_grid g" and "maze s = Some g" and "solving s" and "\<not> paused s"
    and "search_nodes s = FCosts (x # xs)" and "heappop x xs = ((f, c, u), rest)"
    and "end_point s = Some e" and "e \<noteq> u"
    and "new = improved g (distances s) (c + 1) (nbrs u directions)"
  shows "animate_astar now s =
           Some (Inr (Visited new,
                      s\<lparr>search_nodes := FCosts (rest @ map (\<lambda>n. (c + 1 + manhattan n e, c + 1, n)) new),
                        parents := adopt (parents s) u new,
                        distances := settle (distances s) (c + 1) new\<rparr>))"
proof -
  have ne: "Some u \<noteq> Some e" using assms(8) by auto
  show ?thesis
    unfolding animate_astar_def assms(9)
    using assms(2-7) ne
    by (simp add: relax_astar_wf[OF assms(1) distinct_nbrs_directions] del: relax_astar.simps)
qed

section \<open>Runs of a search\<close>

lemma run_invariant:
  assumes step: "\<And>now s. I s \<Longrightarrow> \<exists>ev s'. tick now s = Some (Inr (ev, s')) \<and> I s'"
    and pause: "\<And>s. I s \<Longrightarrow> I (toggle_pause s)"
    and init: "I s"
  shows "\<exists>evs s'. run tick acts s = Some (Inr (evs, s')) \<and> I s'"
  using init
proof (induction acts arbitrary: s)
  case Nil
  then show ?case by simp
next
  case (Cons a acts)
  show ?case
  proof (cases a)
    case TogglePause
    from Cons.IH[OF pause[OF Cons.prems]] TogglePause show ?thesis by simp
  next
    case (Tick now)
    from step[OF Cons.prems, of now] obtain ev s1 where
      t: "tick now s = Some (Inr (ev, s1))" and i: "I s1" by blast
    from Cons.IH[OF i] obtain evs s2 where r: "run tick acts s1 = Some (Inr (evs, s2))" and "I s2"
      by blast
    with t Tick show ?thesis by simp
  qed
qed

text \<open>A parent map in which the start has no parent and every recorded cell leads to the
  start.\<close>

definition rooted :: "coord \<Rightarrow> (coord \<Rightarrow> coord option option) \<Rightarrow> bool" where
  "rooted st ps = (ps st = Some None \<and> (\<forall>v. ps v \<noteq> None \<longrightarrow> (\<exists>n. hops ps n v = Some st)))"

lemma plain_inv_rooted: "plain_inv g st ps q \<Longrightarrow> rooted st ps"
  unfolding plain_inv_def rooted_def by blast

lemma cost_inv_rooted:
  assumes "cost_inv g st dm ps H"
  shows "rooted st ps"
proof -
  from assms have "ps st = Some None" by (simp add: cost_inv_def)
  with cost_inv_hops[OF assms] show ?thesis unfolding rooted_def by blast
qed

lemma rooted_walk_back:
  assumes "rooted st ps"
  shows "\<exists>p. walk_back ps c acc = Some p"
proof (cases c)
  case None
  then show ?thesis by (simp add: walk_back_None)
next
  case (Some v)
  show ?thesis
  proof (cases "ps v")
    case None
    then have "parent_of ps v = None" by (simp add: parent_of_def)
    moreover have "hops ps 0 v = Some v" by simp
    ultimately have "walk_back ps (Some v) acc = Some (acc @ trail ps 0 v)"
      by (rule walk_back_hops[rotated])
    with Some show ?thesis by blast
  next
    case (Some pv)
    with assms obtain n where n: "hops ps n v = Some st" unfolding rooted_def by blast
    from assms have "parent_of ps st = None" by (simp add: rooted_def parent_of_def)
    from walk_back_hops[OF n this] \<open>c = Some v\<close> show ?thesis by blast
  qed
qed

lemma hops_add:
  "hops ps (a + b) v = (case hops ps a v of None \<Rightarrow> None | Some w \<Rightarrow> hops ps b w)"
  by (induction a arbitrary: v) (auto split: option.splits)

lemma hops_prefix:
  assumes "hops ps n v \<noteq> None" and "m \<le> n"
  shows "hops ps m v \<noteq> None"
proof -
  from assms(2) obtain k where "n = m + k" using le_Suc_ex by blast
  with assms(1) show ?thesis by (auto simp: hops_add split: option.splits)
qed

lemma hops_cycle:
  assumes "hops ps n v = Some v"
  shows "hops ps (k * n) v = Some v"
proof (induction k)
  case 0
  show ?case by simp
next
  case (Suc k)
  have "hops ps (Suc k * n) v = hops ps (n + k * n) v" by simp
  also have "\<dots> = hops ps (k * n) v" using assms by (simp only: hops_add option.case)
  finally show ?case using Suc by simp
qed

lemma rooted_acyclic:
  assumes "rooted st ps" and "0 < n"
  shows "hops ps n v \<noteq> Some v"
proof
  assume c: "hops ps n v = Some v"
  from \<open>0 < n\<close> obtain n' where n': "n = Suc n'" by (cases n) auto
  with c have "ps v \<noteq> None" by (auto split: option.splits)
  with assms(1) obtain m where m: "hops ps m v = Some st" unfolding rooted_def by blast
  from assms(1) have "ps st = Some None" by (simp add: rooted_def)
  then have "hops ps (Suc 0) st = None" by simp
  with m have stop: "hops ps (m + Suc 0) v = None" by (simp only: hops_add option.case)
  have "m + Suc 0 \<le> (m + Suc 0) * n" unfolding n' by simp
  from hops_prefix[OF _ this, of ps v] hops_cycle[OF c, of "m + Suc 0"] stop
  show False by simp
qed

text \<open>What holds of the application in every state of a search for the end point \<open>e\<close> that
  was started from \<open>st\<close> with the algorithm named \<open>algo\<close>.\<close>

definition search_inv :: "grid \<Rightarrow> coord \<Rightarrow> coord \<Rightarrow> string \<Rightarrow> app \<Rightarrow> bool" where
  "search_inv g st e algo s =
     (wf_grid g \<and> maze s = Some g \<and> end_point s = Some e \<and> search_start_time s \<noteq> None
      \<and> (case search_nodes s of
            Cells q \<Rightarrow> algo \<noteq> ''Dijkstra'' \<and> algo \<noteq> ''A*'' \<and> plain_inv g st (parents s) q
          | Costs h \<Rightarrow> algo = ''Dijkstra'' \<and> cost_inv g st (distances s) (parents s) h
          | FCosts h \<Rightarrow> algo = ''A*'' \<and> cost_inv g st (distances s) (parents s) (map snd h)))"

lemma finish_rooted:
  assumes "rooted st (parents s)" and "search_start_time s = Some t0"
  shows "\<exists>p. finish now s = Some (Inr (Solved p, s\<lparr>solving := False, search_time := now - t0\<rparr>))"
proof -
  from rooted_walk_back[OF assms(1), of "end_point s" "[]"] obtain p where
    "walk_back (parents s) (end_point s) [] = Some p" by blast
  then show ?thesis by (simp add: finish_eq[OF assms(2)])
qed

text \<open>What a "Maze solved!" step shows: the cells from the end point back to the start, each
  followed by its recorded parent.\<close>

definition solved_ok :: "coord \<Rightarrow> coord \<Rightarrow> event \<Rightarrow> app \<Rightarrow> bool" where
  "solved_ok st e ev s =
     (case ev of
        Solved p \<Rightarrow> \<not> solving s \<and> (\<exists>n. hops (parents s) n e = Some st \<and> p = trail (parents s) n e)
      | _ \<Rightarrow> True)"

lemma finish_trail:
  assumes "rooted st (parents s)" and "search_start_time s = Some t0" and "end_point s = Some e"
    and "parents s e \<noteq> None"
  shows "\<exists>n. hops (parents s) n e = Some st
             \<and> finish now s = Some (Inr (Solved (trail (parents s) n e),
                                         s\<lparr>solving := False, search_time := now - t0\<rparr>))"
proof -
  from assms(1,4) obtain n where n: "hops (parents s) n e = Some st" unfolding rooted_def by blast
  from assms(1) have "parent_of (parents s) st = None" by (simp add: rooted_def parent_of_def)
  from walk_back_hops[OF n this, of "[]"] have "walk_back (parents s) (end_point s) [] = Some (trail (parents s) n e)"
    using assms(3) by simp
  with n show ?thesis by (auto simp: finish_eq[OF assms(2)])
qed

lemma bfs_step:
  assumes wf: "wf_grid g" and m: "maze s = Some g" and e: "end_point s = Some e"
    and t: "search_start_time s = Some t0" and sol: "solving s" and np: "\<not> paused s"
    and q: "search_nodes s = Cells q" and inv: "plain_inv g st (parents s) q"
  shows "\<exists>ev s' q'. animate_bfs now s = Some (Inr (ev, s')) \<and> maze s' = Some g
           \<and> end_point s' = Some e \<and> search_start_time s' = Some t0
           \<and> search_nodes s' = Cells q' \<and> plain_inv g st (parents s') q'
           \<and> solved_ok st e ev s'"
proof (cases q)
  case Nil
  from animate_bfs_empty[OF sol np q[unfolded Nil], of now] m e t q inv show ?thesis by (simp add: solved_ok_def)
next
  case (Cons u rest)
  from inv have d: "distinct q" by (simp add: plain_inv_def)
  with Cons have rest: "set rest \<subseteq> set q" "distinct rest" by auto
  show ?thesis
  proof (cases "e = u")
    case True
    let ?s1 = "s\<lparr>search_nodes := Cells rest\<rparr>"
    have r: "rooted st (parents ?s1)" using plain_inv_rooted[OF inv] by simp
    have t1: "search_start_time ?s1 = Some t0" using t by simp
    have pe: "parents ?s1 e \<noteq> None" using inv Cons True by (simp add: plain_inv_def)
    have e1: "end_point ?s1 = Some e" using e by simp
    from finish_trail[OF r t1 e1 pe, of now] obtain n where
      n: "hops (parents s) n e = Some st"
      and f0: "finish now ?s1 = Some (Inr (Solved (trail (parents s) n e),
                                          ?s1\<lparr>solving := False, search_time := now - t0\<rparr>))"
      by auto
    define p where "p = trail (parents s) n e"
    have f: "finish now ?s1 = Some (Inr (Solved p, ?s1\<lparr>solving := False, search_time := now - t0\<rparr>))"
      using f0 by (simp add: p_def)
    have so: "solved_ok st e (Solved p) (?s1\<lparr>solving := False, search_time := now - t0\<rparr>)"
      using n by (auto simp: solved_ok_def p_def)
    from animate_bfs_goal[OF sol np q[unfolded Cons], of now] e True
    have "animate_bfs now s = finish now ?s1" by simp
    with f have a: "animate_bfs now s
        = Some (Inr (Solved p, ?s1\<lparr>solving := False, search_time := now - t0\<rparr>))" by simp
    from plain_inv_drop[OF inv rest] have "plain_inv g st (parents s) rest" .
    with a m e t so show ?thesis by simp
  next
    case False
    with e have ne: "end_point s \<noteq> Some u" by simp
    define new where "new = fresh g (parents s) (nbrs u directions)"
    from animate_bfs_expand[OF wf m sol np q[unfolded Cons] ne, of now]
    have a: "animate_bfs now s
        = Some (Inr (Visited new, s\<lparr>search_nodes := Cells (rest @ new),
                                    parents := adopt (parents s) u new\<rparr>))"
      by (simp add: new_def)
    have "u \<in> set q" using Cons by simp
    from plain_inv_step[OF inv this rest new_def]
    have "plain_inv g st (adopt (parents s) u new) (rest @ new)" .
    with a m e t show ?thesis by (simp add: solved_ok_def)
  qed
qed

lemma dfs_step:
  assumes wf: "wf_grid g" and m: "maze s = Some g" and e: "end_point s = Some e"
    and t: "search_start_time s = Some t0" and sol: "solving s" and np: "\<not> paused s"
    and q: "search_nodes s = Cells q" and inv: "plain_inv g st (parents s) q"
  shows "\<exists>ev s' q'. animate_dfs now s = Some (Inr (ev, s')) \<and> maze s' = Some g
           \<and> end_point s' = Some e \<and> search_start_time s' = Some t0
           \<and> search_nodes s' = Cells q' \<and> plain_inv g st (parents s') q'
           \<and> solved_ok st e ev s'"
proof (cases "q = []")
  case True
  from animate_dfs_empty[OF sol np q[unfolded True], of now] m e t q inv show ?thesis by (simp add: solved_ok_def)
next
  case ne: False
  from inv have d: "distinct q" by (simp add: plain_inv_def)
  have rest: "set (butlast q) \<subseteq> set q" "distinct (butlast q)"
    using d by (auto dest: in_set_butlastD simp: distinct_butlast)
  have uq: "last q \<in> set q" using ne by simp
  show ?thesis
  proof (cases "e = last q")
    case True
    let ?s1 = "s\<lparr>search_nodes := Cells (butlast q)\<rparr>"
    have r: "rooted st (parents ?s1)" using plain_inv_rooted[OF inv] by simp
    have t1: "search_start_time ?s1 = Some t0" using t by simp
    have pe: "parents ?s1 e \<noteq> None" using inv uq True by (simp add: plain_inv_def)
    have e1: "end_point ?s1 = Some e" using e by simp
    from finish_trail[OF r t1 e1 pe, of now] obtain n where
      n: "hops (parents s) n e = Some st"
      and f0: "finish now ?s1 = Some (Inr (Solved (trail (parents s) n e),
                                          ?s1\<lparr>solving := False, search_time := now - t0\<rparr>))"
      by auto
    define p where "p = trail (parents s) n e"
    have f: "finish now ?s1 = Some (Inr (Solved p, ?s1\<lparr>solving := False, search_time := now - t0\<rparr>))"
      using f0 by (simp add: p_def)
    have so: "solved_ok st e (Solved p) (?s1\<lparr>solving := False, search_time := now - t0\<rparr>)"
      using n by (auto simp: solved_ok_def p_def)
    from e True have "end_point s = Some (last q)" by simp
    from animate_dfs_goal[OF sol np q ne this, of now]
    have "animate_dfs now s = finish now ?s1" .
    with f have a: "animate_dfs now s
        = Some (Inr (Solved p, ?s1\<lparr>solving := False, search_time := now - t0\<rparr>))" by simp
    from plain_inv_drop[OF inv rest] have "plain_inv g st (parents s) (butlast q)" .
    with a m e t so show ?thesis by simp
  next
    case False
    with e have ne': "end_point s \<noteq> Some (last q)" by simp
    define new where "new = fresh g (parents s) (nbrs (last q) directions)"
    from animate_dfs_expand[OF wf m sol np q ne ne', of now]
    have a: "animate_dfs now s
        = Some (Inr (Visited new, s\<lparr>search_nodes := Cells (butlast q @ new),
                                    parents := adopt (parents s) (last q) new\<rparr>))"
      by (simp add: new_def)
    from plain_inv_step[OF inv uq rest new_def]
    have "plain_inv g st (adopt (parents s) (last q) new) (butlast q @ new)" .
    with a m e t show ?thesis by (simp add: solved_ok_def)
  qed
qed

lemma cost_inv_recorded:
  assumes "cost_inv g st dm ps H" and "(c, u) \<in> set H"
  shows "ps u \<noteq> None"
proof -
  from assms(1) have same: "\<forall>v. (ps v \<noteq> None) = (dm v \<noteq> None)"
    and ent: "\<forall>(c, v) \<in> set H. (\<exists>d. dm v = Some d \<and> d \<le> c) \<and> walk g st (nat c) v"
    by (simp_all add: cost_inv_def)
  from ent assms(2) obtain d where "dm u = Some d" by fastforce
  with spec[OF same, of u] show ?thesis by simp
qed

lemma dijkstra_step:
  assumes wf: "wf_grid g" and m: "maze s = Some g" and e: "end_point s = Some e"
    and t: "search_start_time s = Some t0" and sol: "solving s" and np: "\<not> paused s"
    and q: "search_nodes s = Costs h" and inv: "cost_inv g st (distances s) (parents s) h"
  shows "\<exists>ev s' h'. animate_dijkstra now s = Some (Inr (ev, s')) \<and> maze s' = Some g
           \<and> end_point s' = Some e \<and> search_start_time s' = Some t0
           \<and> search_nodes s' = Costs h' \<and> cost_inv g st (distances s') (parents s') h'
           \<and> solved_ok st e ev s'"
proof (cases h)
  case Nil
  from animate_dijkstra_empty[OF sol np q[unfolded Nil], of now] m e t q inv show ?thesis by (simp add: solved_ok_def)
next
  case (Cons x xs)
  obtain c u where cu: "least x xs = (c, u)" by (cases "least x xs") auto
  define rest where "rest = remove1 (c, u) (x # xs)"
  have pop: "heappop x xs = ((c, u), rest)" by (simp add: heappop_eq cu rest_def)
  have uin: "(c, u) \<in> set h" using least_in[of x xs] cu Cons by simp
  have rest: "set rest \<subseteq> set h" unfolding rest_def Cons by (rule set_remove1_subset)
  show ?thesis
  proof (cases "e = u")
    case True
    let ?s1 = "s\<lparr>search_nodes := Costs rest\<rparr>"
    have r: "rooted st (parents ?s1)" using cost_inv_rooted[OF inv] by simp
    have t1: "search_start_time ?s1 = Some t0" using t by simp
    have pe: "parents ?s1 e \<noteq> None" using cost_inv_recorded[OF inv uin] True by simp
    have e1: "end_point ?s1 = Some e" using e by simp
    from finish_trail[OF r t1 e1 pe, of now] obtain n where
      n: "hops (parents s) n e = Some st"
      and f0: "finish now ?s1 = Some (Inr (Solved (trail (parents s) n e),
                                          ?s1\<lparr>solving := False, search_time := now - t0\<rparr>))"
      by auto
    define p where "p = trail (parents s) n e"
    have f: "finish now ?s1 = Some (Inr (Solved p, ?s1\<lparr>solving := False, search_time := now - t0\<rparr>))"
      using f0 by (simp add: p_def)
    have so: "solved_ok st e (Solved p) (?s1\<lparr>solving := False, search_time := now - t0\<rparr>)"
      using n by (auto simp: solved_ok_def p_def)
    from e True have "end_point s = Some u" by simp
    from animate_dijkstra_goal[OF sol np q[unfolded Cons] pop this, of now]
    have "animate_dijkstra now s = finish now ?s1" .
    with f have a: "animate_dijkstra now s
        = Some (Inr (Solved p, ?s1\<lparr>solving := False, search_time := now - t0\<rparr>))" by simp
    from cost_inv_drop[OF inv rest] have "cost_inv g st (distances s) (parents s) rest" .
    with a m e t so show ?thesis by simp
  next
    case False
    with e have ne: "end_point s \<noteq> Some u" by simp
    define new where "new = improved g (distances s) (c + 1) (nbrs u directions)"
    from animate_dijkstra_expand[OF wf m sol np q[unfolded Cons] pop ne new_def, of now]
    have a: "animate_dijkstra now s
        = Some (Inr (Visited new,
                      s\<lparr>search_nodes := Costs (rest @ map (\<lambda>n. (c + 1, n)) new),
                        parents := adopt (parents s) u new,
                        distances := settle (distances s) (c + 1) new\<rparr>))" .
    from cost_inv_step[OF inv uin rest new_def]
    have "cost_inv g st (settle (distances s) (c + 1) new) (adopt (parents s) u new)
            (rest @ map (\<lambda>n. (c + 1, n)) new)" .
    with a m e t show ?thesis by (simp add: solved_ok_def)
  qed
qed

lemma astar_step:
  assumes wf: "wf_grid g" and m: "maze s = Some g" and e: "end_point s = Some e"
    and t: "search_start_time s = Some t0" and sol: "solving s" and np: "\<not> paused s"
    and q: "search_nodes s = FCosts h" and inv: "cost_inv g st (distances s) (parents s) (map snd h)"
  shows "\<exists>ev s' h'. animate_astar now s = Some (Inr (ev, s')) \<and> maze s' = Some g
           \<and> end_point s' = Some e \<and> search_start_time s' = Some t0
           \<and> search_nodes s' = FCosts h' \<and> cost_inv g st (distances s') (parents s') (map snd h')
           \<and> solved_ok st e ev s'"
proof (cases h)
  case Nil
  from animate_astar_empty[OF sol np q[unfolded Nil], of now] m e t q inv show ?thesis by (simp add: solved_ok_def)
next
  case (Cons x xs)
  obtain f c u where cu: "least x xs = (f, c, u)" by (cases "least x xs") auto
  define rest where "rest = remove1 (f, c, u) (x # xs)"
  have pop: "heappop x xs = ((f, c, u), rest)" by (simp add: heappop_eq cu rest_def)
  have "(f, c, u) \<in> set h" using least_in[of x xs] cu Cons by simp
  then have uin: "(c, u) \<in> set (map snd h)" by force
  have "set rest \<subseteq> set h" unfolding rest_def Cons by (rule set_remove1_subset)
  then have rest: "set (map snd rest) \<subseteq> set (map snd h)" by auto
  show ?thesis
  proof (cases "e = u")
    case True
    let ?s1 = "s\<lparr>search_nodes := FCosts rest\<rparr>"
    have r: "rooted st (parents ?s1)" using cost_inv_rooted[OF inv] by simp
    have t1: "search_start_time ?s1 = Some t0" using t by simp
    have pe: "parents ?s1 e \<noteq> None" using cost_inv_recorded[OF inv uin] True by simp
    have e1: "end_point ?s1 = Some e" using e by simp
    from finish_trail[OF r t1 e1 pe, of now] obtain n where
      n: "hops (parents s) n e = Some st"
      and f0: "finish now ?s1 = Some (Inr (Solved (trail (parents s) n e),
                                          ?s1\<lparr>solving := False, search_time := now - t0\<rparr>))"
      by auto
    define p where "p = trail (parents s) n e"
    have f: "finish now ?s1 = Some (Inr (Solved p, ?s1\<lparr>solving := False, search_time := now - t0\<rparr>))"
      using f0 by (simp add: p_def)
    have so: "solved_ok st e (Solved p) (?s1\<lparr>solving := False, search_time := now - t0\<rparr>)"
      using n by (auto simp: solved_ok_def p_def)
    from e True have "end_point s = Some u" by simp
    from animate_astar_goal[OF sol np q[unfolded Cons] pop this, of now]
    have "animate_astar now s = finish now ?s1" .
    with f have a: "animate_astar now s
        = Some (Inr (Solved p, ?s1\<lparr>solving := False, search_time := now - t0\<rparr>))" by simp
    from cost_inv_drop[OF inv rest] have "cost_inv g st (distances s) (parents s) (map snd rest)" .
    with a m e t so show ?thesis by simp
  next
    case False
    define new where "new = improved g (distances s) (c + 1) (nbrs u directions)"
    from animate_astar_expand[OF wf m sol np q[unfolded Cons] pop e False new_def, of now]
    have a: "animate_astar now s
        = Some (Inr (Visited new,
                      s\<lparr>search_nodes := FCosts (rest @ map (\<lambda>n. (c + 1 + manhattan n e, c + 1, n)) new),
                        parents := adopt (parents s) u new,
                        distances := settle (distances s) (c + 1) new\<rparr>))" .
    have pr: "map snd (rest @ map (\<lambda>n. (c + 1 + manhattan n e, c + 1, n)) new)
              = map snd rest @ map (\<lambda>n. (c + 1, n)) new"
      by (simp add: comp_def)
    from cost_inv_step[OF inv uin rest new_def]
    have "cost_inv g st (settle (distances s) (c + 1) new) (adopt (parents s) u new)
            (map snd rest @ map (\<lambda>n. (c + 1, n)) new)" .
    then have "cost_inv g st (settle (distances s) (c + 1) new) (adopt (parents s) u new)
            (map snd (rest @ map (\<lambda>n. (c + 1 + manhattan n e, c + 1, n)) new))"
      by (simp only: pr)
    with a m e t show ?thesis by (simp add: solved_ok_def del: map_append)
  qed
qed

lemma search_inv_step:
  assumes "search_inv g st e algo s"
  shows "\<exists>ev s'. animate algo now s = Some (Inr (ev, s')) \<and> search_inv g st e algo s'
            \<and> solved_ok st e ev s'"
proof (cases "solving s")
  case False
  from animate_idle[OF False, of algo now] assms show ?thesis by (simp add: solved_ok_def)
next
  case sol: True
  show ?thesis
  proof (cases "paused s")
    case True
    from animate_polling[OF sol True, of algo now] assms show ?thesis by (simp add: solved_ok_def)
  next
    case np: False
    from assms have wf: "wf_grid g" and m: "maze s = Some g" and e: "end_point s = Some e"
      by (simp_all add: search_inv_def)
    from assms obtain t0 where t: "search_start_time s = Some t0"
      by (auto simp: search_inv_def)
    show ?thesis
    proof (cases "search_nodes s")
      case (Cells q)
      with assms have al: "algo \<noteq> ''Dijkstra''" "algo \<noteq> ''A*''"
        and inv: "plain_inv g st (parents s) q"
        by (simp_all add: search_inv_def)
      show ?thesis
      proof (cases "algo = ''DFS''")
        case True
        then have a: "animate algo = animate_dfs" by (simp add: animate_def)
        from dfs_step[OF wf m e t sol np Cells inv, of now] obtain ev s' q' where
          "animate_dfs now s = Some (Inr (ev, s'))" "maze s' = Some g" "end_point s' = Some e"
          "search_start_time s' = Some t0" "search_nodes s' = Cells q'"
          "plain_inv g st (parents s') q'" "solved_ok st e ev s'"
          by blast
        with a al wf show ?thesis by (simp add: search_inv_def)
      next
        case False
        with al have a: "animate algo = animate_bfs" by (simp add: animate_def)
        from bfs_step[OF wf m e t sol np Cells inv, of now] obtain ev s' q' where
          "animate_bfs now s = Some (Inr (ev, s'))" "maze s' = Some g" "end_point s' = Some e"
          "search_start_time s' = Some t0" "search_nodes s' = Cells q'"
          "plain_inv g st (parents s') q'" "solved_ok st e ev s'"
          by blast
        with a al wf show ?thesis by (simp add: search_inv_def)
      qed
    next
      case (Costs h)
      with assms have al: "algo = ''Dijkstra''"
        and inv: "cost_inv g st (distances s) (parents s) h"
        by (simp_all add: search_inv_def)
      from al have a: "animate algo = animate_dijkstra" by (simp add: animate_def)
      from dijkstra_step[OF wf m e t sol np Costs inv, of now] obtain ev s' h' where
        "animate_dijkstra now s = Some (Inr (ev, s'))" "maze s' = Some g" "end_point s' = Some e"
        "search_start_time s' = Some t0" "search_nodes s' = Costs h'"
        "cost_inv g st (distances s') (parents s') h'" "solved_ok st e ev s'"
        by blast
      with a al wf show ?thesis by (simp add: search_inv_def)
    next
      case (FCosts h)
      with assms have al: "algo = ''A*''"
        and inv: "cost_inv g st (distances s) (parents s) (map snd h)"
        by (simp_all add: search_inv_def)
      from al have a: "animate algo = animate_astar" by (simp add: animate_def)
      from astar_step[OF wf m e t sol np FCosts inv, of now] obtain ev s' h' where
        "animate_astar now s = Some (Inr (ev, s'))" "maze s' = Some g" "end_point s' = Some e"
        "search_start_time s' = Some t0" "search_nodes s' = FCosts h'"
        "cost_inv g st (distances s') (parents s') (map snd h')" "solved_ok st e ev s'"
        by blast
      with a al wf show ?thesis by (simp add: search_inv_def)
    qed
  qed
qed

lemma search_inv_pause: "search_inv g st e algo s \<Longrightarrow> search_inv g st e algo (toggle_pause s)"
  by (cases "search_nodes s") (simp_all add: search_inv_def toggle_pause_def)

lemma search_inv_begin:
  assumes "wf_grid g" and "maze s0 = Some g" and "end_point s0 = Some e"
  shows "search_inv g st e (algorithm_var s0) (begin_search now st s0)"
  using assms plain_inv_init[of g st] cost_inv_init[of g st]
  by (simp add: search_inv_def begin_search_def Let_def)

lemma search_inv_rooted:
  assumes "search_inv g st e algo s"
  shows "rooted st (parents s)"
  using assms
  by (cases "search_nodes s") (auto simp: search_inv_def dest: plain_inv_rooted cost_inv_rooted)

lemma search_inv_run:
  assumes "search_inv g st e algo s"
  shows "\<exists>evs s'. run (animate algo) acts s = Some (Inr (evs, s')) \<and> search_inv g st e algo s'"
proof (rule run_invariant[where I = "search_inv g st e algo"])
  fix now s assume "search_inv g st e algo s"
  from search_inv_step[OF this, of now]
  show "\<exists>ev s'. animate algo now s = Some (Inr (ev, s')) \<and> search_inv g st e algo s'" by blast
next
  fix s assume "search_inv g st e algo s"
  then show "search_inv g st e algo (toggle_pause s)" by (rule search_inv_pause)
next
  show "search_inv g st e algo s" by (rule assms)
qed

text \<open>
  C10. Start a solve (\<open>on_solve_maze\<close>) on a rectangular maze with both points chosen, with
  any algorithm, and let any number of ticks and pause presses follow. The solve and the run
  return without error, and in the state reached the parent map is acyclic: the start's entry
  is still \<open>None\<close>, every recorded cell reaches the start by following finitely many parent
  links, no cell is its own ancestor, and the backward walk of \<open>draw_solution_path\<close> ends.
\<close>

theorem parents_acyclic:
  assumes "maze s0 = Some g" and "wf_grid g" and "start_point s0 = Some st"
    and "end_point s0 = Some e"
  shows "\<exists>ev s1. on_solve_maze now now' s0 = Some (Inr (ev, s1))
           \<and> (\<exists>evs s. run (animate (algorithm_var s0)) acts s1 = Some (Inr (evs, s))
                  \<and> parents s st = Some None
                  \<and> (\<forall>v. parents s v \<noteq> None \<longrightarrow> (\<exists>n. hops (parents s) n v = Some st))
                  \<and> (\<forall>v n. 0 < n \<longrightarrow> hops (parents s) n v \<noteq> Some v)
                  \<and> (\<exists>p. draw_solution_path s = Some p))"
proof -
  let ?algo = "algorithm_var s0"
  have solve: "on_solve_maze now now' s0 = animate ?algo now' (begin_search now st s0)"
    using assms(1,3,4) by (simp add: on_solve_maze_def)
  from search_inv_begin[OF assms(2,1,4), of st now]
  have i0: "search_inv g st e ?algo (begin_search now st s0)" .
  from search_inv_step[OF i0, of now'] obtain ev s1 where
    t: "animate ?algo now' (begin_search now st s0) = Some (Inr (ev, s1))"
    and i1: "search_inv g st e ?algo s1"
    by blast
  from search_inv_run[OF i1, of acts] obtain evs s where
    r: "run (animate ?algo) acts s1 = Some (Inr (evs, s))" and i: "search_inv g st e ?algo s"
    by blast
  from search_inv_rooted[OF i] have ro: "rooted st (parents s)" .
  then have a: "parents s st = Some None"
    and b: "\<forall>v. parents s v \<noteq> None \<longrightarrow> (\<exists>n. hops (parents s) n v = Some st)"
    by (simp_all add: rooted_def)
  have c: "\<forall>v n. 0 < n \<longrightarrow> hops (parents s) n v \<noteq> Some v"
    using rooted_acyclic[OF ro] by blast
  have d: "\<exists>p. draw_solution_path s = Some p"
    unfolding draw_solution_path_def by (rule rooted_walk_back[OF ro])
  from solve t r a b c d show ?thesis by auto
qed

theorem parents_acyclic_witness:
  "maze (both_chosen\<lparr>algorithm_var := ''A*''\<rparr>) = Some maze5 \<and> wf_grid maze5
   \<and> start_point (both_chosen\<lparr>algorithm_var := ''A*''\<rparr>) = Some (1, 1)
   \<and> end_point (both_chosen\<lparr>algorithm_var := ''A*''\<rparr>) = Some (3, 1)
   \<and> (\<exists>ev s1. on_solve_maze 0 0 (both_chosen\<lparr>algorithm_var := ''A*''\<rparr>) = Some (Inr (ev, s1))
         \<and> (\<exists>evs s. run (animate ''A*'') [Tick 1, TogglePause, Tick 2, TogglePause, Tick 3, Tick 4] s1
                       = Some (Inr (evs, s))
                \<and> parents s (1, 1) = Some None
                \<and> parents s (3, 1) = Some (Some (2, 1))
                \<and> (\<exists>n. hops (parents s) n (3, 1) = Some (1, 1))
                \<and> hops (parents s) 2 (3, 1) \<noteq> Some (3, 1)
                \<and> (\<exists>p. draw_solution_path s = Some p)))"
proof -
  let ?S = "both_chosen\<lparr>algorithm_var := ''A*''\<rparr>"
  let ?acts = "[Tick 1, TogglePause, Tick 2, TogglePause, Tick 3, Tick 4]"
  have f: "maze ?S = Some maze5" "start_point ?S = Some (1, 1)" "end_point ?S = Some (3, 1)"
    "algorithm_var ?S = ''A*''"
    by (simp_all add: both_chosen_def start_chosen_def shown_def initial_def)
  from parents_acyclic[OF f(1) wf_maze5 f(2,3), of 0 0 ?acts] obtain ev s1 evs s where
    o: "on_solve_maze 0 0 ?S = Some (Inr (ev, s1))"
    and r: "run (animate ''A*'') ?acts s1 = Some (Inr (evs, s))"
    and a: "parents s (1, 1) = Some None"
    and b: "\<forall>v. parents s v \<noteq> None \<longrightarrow> (\<exists>n. hops (parents s) n v = Some (1, 1))"
    and c: "\<forall>v n. 0 < n \<longrightarrow> hops (parents s) n v \<noteq> Some v"
    and d: "\<exists>p. draw_solution_path s = Some p"
    unfolding f(4) by auto
  have k: "(case on_solve_maze 0 0 ?S of
              Some (Inr (ev, s1)) \<Rightarrow>
                (case run (animate ''A*'') ?acts s1 of
                   Some (Inr (evs, s)) \<Rightarrow> parents s (3, 1) = Some (Some (2, 1))
                 | _ \<Rightarrow> False)
            | _ \<Rightarrow> False)"
    by code_simp
  with o r have p: "parents s (3, 1) = Some (Some (2, 1))" by simp
  with b have h: "\<exists>n. hops (parents s) n (3, 1) = Some (1, 1)" by simp
  from c have n: "hops (parents s) 2 (3, 1) \<noteq> Some (3, 1)" by simp
  from o r a p h n d have "\<exists>ev s1. on_solve_maze 0 0 ?S = Some (Inr (ev, s1))
         \<and> (\<exists>evs s. run (animate ''A*'') ?acts s1 = Some (Inr (evs, s))
                \<and> parents s (1, 1) = Some None
                \<and> parents s (3, 1) = Some (Some (2, 1))
                \<and> (\<exists>n. hops (parents s) n (3, 1) = Some (1, 1))
                \<and> hops (parents s) 2 (3, 1) \<noteq> Some (3, 1)
                \<and> (\<exists>p. draw_solution_path s = Some p))"
    by auto
  with f(1-3) wf_maze5 show ?thesis by (intro conjI)
qed

section \<open>The path shown when the maze is solved\<close>

lemma solved_ok_idle:
  assumes "search_inv g st e algo s" and "solved_ok st e x s"
    and "animate algo now s = Some (Inr (ev, s'))"
  shows "solved_ok st e x s'"
proof (cases x)
  case (Solved p)
  with assms(2) have "\<not> solving s" by (simp add: solved_ok_def)
  from animate_idle[OF this, of algo now] assms(3) have "s' = s" by simp
  with assms(2) show ?thesis by simp
qed (simp_all add: solved_ok_def)

lemma solved_ok_pause: "solved_ok st e x s \<Longrightarrow> solved_ok st e x (toggle_pause s)"
  by (cases x) (simp_all add: solved_ok_def toggle_pause_def)

lemma search_inv_run_events:
  assumes "search_inv g st e algo s"
  shows "\<exists>evs s'. run (animate algo) acts s = Some (Inr (evs, s')) \<and> search_inv g st e algo s'
            \<and> (\<forall>x. solved_ok st e x s \<longrightarrow> solved_ok st e x s')
            \<and> (\<forall>ev \<in> set evs. solved_ok st e ev s')"
  using assms
proof (induction acts arbitrary: s)
  case Nil
  then show ?case by simp
next
  case (Cons a acts)
  show ?case
  proof (cases a)
    case TogglePause
    from Cons.IH[OF search_inv_pause[OF Cons.prems]] obtain evs s' where
      r: "run (animate algo) acts (toggle_pause s) = Some (Inr (evs, s'))"
      and i: "search_inv g st e algo s'"
      and k: "\<forall>x. solved_ok st e x (toggle_pause s) \<longrightarrow> solved_ok st e x s'"
      and q: "\<forall>ev \<in> set evs. solved_ok st e ev s'"
      by blast
    from k have "\<forall>x. solved_ok st e x s \<longrightarrow> solved_ok st e x s'"
      using solved_ok_pause by blast
    with r i q TogglePause show ?thesis by simp
  next
    case (Tick now)
    from search_inv_step[OF Cons.prems, of now] obtain ev s1 where
      t: "animate algo now s = Some (Inr (ev, s1))" and i1: "search_inv g st e algo s1"
      and o1: "solved_ok st e ev s1"
      by blast
    from Cons.IH[OF i1] obtain evs s' where
      r: "run (animate algo) acts s1 = Some (Inr (evs, s'))"
      and i: "search_inv g st e algo s'"
      and k: "\<forall>x. solved_ok st e x s1 \<longrightarrow> solved_ok st e x s'"
      and q: "\<forall>ev \<in> set evs. solved_ok st e ev s'"
      by blast
    have "\<forall>x. solved_ok st e x s \<longrightarrow> solved_ok st e x s'"
      using solved_ok_idle[OF Cons.prems _ t] k by blast
    moreover have "solved_ok st e ev s'" using o1 k by blast
    ultimately show ?thesis using t r i q Tick by simp
  qed
qed

text \<open>Pressing "Solve Maze" and letting the armed callback run through the ticks and pause
  presses \<open>acts\<close>; the events of the solve and of the run are listed together.\<close>

definition solve_then_run :: "real \<Rightarrow> real \<Rightarrow> action list \<Rightarrow> app \<Rightarrow> (error + event list \<times> app) option" where
  "solve_then_run now now' acts s0 =
     (case on_solve_maze now now' s0 of
        None \<Rightarrow> None
      | Some (Inl err) \<Rightarrow> Some (Inl err)
      | Some (Inr (ev, s1)) \<Rightarrow>
          (case run (animate (algorithm_var s0)) acts s1 of
             None \<Rightarrow> None
           | Some (Inl err) \<Rightarrow> Some (Inl err)
           | Some (Inr (evs, s)) \<Rightarrow> Some (Inr (ev # evs, s))))"

lemma solve_then_run_Inr:
  assumes "solve_then_run now now' acts s0 = Some (Inr (evs, s))"
  shows "\<exists>ev s1 evs1. on_solve_maze now now' s0 = Some (Inr (ev, s1))
           \<and> run (animate (algorithm_var s0)) acts s1 = Some (Inr (evs1, s)) \<and> evs = ev # evs1"
  using assms
  by (auto simp: solve_then_run_def split: option.splits sum.splits prod.splits)

lemma solved_path_shape:
  assumes "maze s0 = Some g" and "wf_grid g" and "start_point s0 = Some st"
    and "end_point s0 = Some e"
    and "solve_then_run now now' acts s0 = Some (Inr (evs, s))"
    and "Solved p \<in> set evs"
  shows "\<exists>n. hops (parents s) n e = Some st \<and> p = trail (parents s) n e
             \<and> draw_solution_path s = Some p \<and> search_inv g st e (algorithm_var s0) s"
proof -
  let ?algo = "algorithm_var s0"
  from solve_then_run_Inr[OF assms(5)] obtain ev s1 evs1 where
    o: "on_solve_maze now now' s0 = Some (Inr (ev, s1))"
    and r: "run (animate ?algo) acts s1 = Some (Inr (evs1, s))" and evs: "evs = ev # evs1"
    by blast
  have solve: "on_solve_maze now now' s0 = animate ?algo now' (begin_search now st s0)"
    using assms(1,3,4) by (simp add: on_solve_maze_def)
  from search_inv_begin[OF assms(2,1,4), of st now]
  have i0: "search_inv g st e ?algo (begin_search now st s0)" .
  from search_inv_step[OF i0, of now'] solve o
  have i1: "search_inv g st e ?algo s1" and o1: "solved_ok st e ev s1" by auto
  from search_inv_run_events[OF i1, of acts] r
  have i: "search_inv g st e ?algo s"
    and k: "\<forall>x. solved_ok st e x s1 \<longrightarrow> solved_ok st e x s"
    and q: "\<forall>x \<in> set evs1. solved_ok st e x s"
    by auto
  from o1 k q assms(6) evs have "solved_ok st e (Solved p) s" by auto
  then obtain n where n: "hops (parents s) n e = Some st" and p: "p = trail (parents s) n e"
    by (auto simp: solved_ok_def)
  from search_inv_rooted[OF i] have "parent_of (parents s) st = None"
    by (simp add: rooted_def parent_of_def)
  from walk_back_hops[OF n this, of "[]"] i have "draw_solution_path s = Some p"
    by (simp add: draw_solution_path_def p search_inv_def)
  with n p i show ?thesis by blast
qed

lemma corridor_bfs:
  "painted (solve_then_run 0 0 [Tick 1, Tick 2] (ready corridor (1, 1) (1, 3) ''BFS''))
     = Some (Inr [Visited [(1, 2)], Visited [(1, 3)], Solved [(1, 3), (1, 2), (1, 1)]])"
  by code_simp

lemma corridor_dfs:
  "painted (solve_then_run 0 0 [Tick 1, Tick 2] (ready corridor (1, 1) (1, 3) ''DFS''))
     = Some (Inr [Visited [(1, 2)], Visited [(1, 3)], Solved [(1, 3), (1, 2), (1, 1)]])"
  by code_simp

lemma corridor_dijkstra:
  "painted (solve_then_run 0 0 [Tick 1, Tick 2] (ready corridor (1, 1) (1, 3) ''Dijkstra''))
     = Some (Inr [Visited [(1, 2)], Visited [(1, 3)], Solved [(1, 3), (1, 2), (1, 1)]])"
  by code_simp

lemma corridor_astar:
  "painted (solve_then_run 0 0 [Tick 1, Tick 2] (ready corridor (1, 1) (1, 3) ''A*''))
     = Some (Inr [Visited [(1, 2)], Visited [(1, 3)], Solved [(1, 3), (1, 2), (1, 1)]])"
  by code_simp

text \<open>
  C3 (amended). When a callback reaches the end point, \<open>draw_solution_path\<close> walks the parent
  links backward from the end point to the start (the cell whose parent is \<open>None\<close>) and
  paints the cells in the order collected, which is never reversed: the path shown begins
  with the end point and ends with the start, every cell being followed by its recorded
  parent. On the 5x5 grid with the single corridor (1,1), (1,2), (1,3), start (1,1) and end
  (1,3), each of BFS, DFS, Dijkstra and A* shows the path [(1,3), (1,2), (1,1)].
\<close>

theorem solution_path_order:
  assumes "maze s0 = Some g" and "wf_grid g" and "start_point s0 = Some st"
    and "end_point s0 = Some e"
    and "solve_then_run now now' acts s0 = Some (Inr (evs, s))"
    and "Solved p \<in> set evs"
  shows "p \<noteq> [] \<and> hd p = e \<and> last p = st \<and> linked (parents s) p
         \<and> parents s st = Some None \<and> draw_solution_path s = Some p
         \<and> painted (solve_then_run 0 0 [Tick 1, Tick 2] (ready corridor (1, 1) (1, 3) ''BFS''))
             = Some (Inr [Visited [(1, 2)], Visited [(1, 3)], Solved [(1, 3), (1, 2), (1, 1)]])
         \<and> painted (solve_then_run 0 0 [Tick 1, Tick 2] (ready corridor (1, 1) (1, 3) ''DFS''))
             = Some (Inr [Visited [(1, 2)], Visited [(1, 3)], Solved [(1, 3), (1, 2), (1, 1)]])
         \<and> painted (solve_then_run 0 0 [Tick 1, Tick 2] (ready corridor (1, 1) (1, 3) ''Dijkstra''))
             = Some (Inr [Visited [(1, 2)], Visited [(1, 3)], Solved [(1, 3), (1, 2), (1, 1)]])
         \<and> painted (solve_then_run 0 0 [Tick 1, Tick 2] (ready corridor (1, 1) (1, 3) ''A*''))
             = Some (Inr [Visited [(1, 2)], Visited [(1, 3)], Solved [(1, 3), (1, 2), (1, 1)]])"
proof -
  from solved_path_shape[OF assms] obtain n where
    n: "hops (parents s) n e = Some st" and p: "p = trail (parents s) n e"
    and d: "draw_solution_path s = Some p" and i: "search_inv g st e (algorithm_var s0) s"
    by blast
  from trail_length[OF n] have ne: "p \<noteq> []" unfolding p by auto
  from search_inv_rooted[OF i] have r: "parents s st = Some None" by (simp add: rooted_def)
  have "p \<noteq> [] \<and> hd p = e \<and> last p = st \<and> linked (parents s) p
         \<and> parents s st = Some None \<and> draw_solution_path s = Some p"
    using ne trail_hd[of "parents s" n e] trail_last[OF n] trail_linked[OF n] r d
    unfolding p by simp
  with corridor_bfs corridor_dfs corridor_dijkstra corridor_astar show ?thesis
    by (intro conjI) simp_all
qed

theorem solution_path_order_witness:
  "maze (ready corridor (1, 1) (1, 3) ''DFS'') = Some corridor \<and> wf_grid corridor
   \<and> start_point (ready corridor (1, 1) (1, 3) ''DFS'') = Some (1, 1)
   \<and> end_point (ready corridor (1, 1) (1, 3) ''DFS'') = Some (1, 3)
   \<and> (\<exists>evs s. solve_then_run 0 0 [Tick 1, Tick 2] (ready corridor (1, 1) (1, 3) ''DFS'')
                    = Some (Inr (evs, s))
               \<and> Solved [(1, 3), (1, 2), (1, 1)] \<in> set evs
               \<and> hd [(1, 3), (1, 2), (1, 1)] = ((1, 3) :: coord)
               \<and> last [(1, 3), (1, 2), (1, 1)] = ((1, 1) :: coord)
               \<and> linked (parents s) [(1, 3), (1, 2), (1, 1)]
               \<and> parents s (1, 1) = Some None
               \<and> draw_solution_path s = Some [(1, 3), (1, 2), (1, 1)])"
proof -
  let ?S = "ready corridor (1, 1) (1, 3) ''DFS''"
  have f: "maze ?S = Some corridor" "start_point ?S = Some (1, 1)" "end_point ?S = Some (1, 3)"
    by (simp_all add: ready_def)
  have wf: "wf_grid corridor" by (simp add: wf_grid_def corridor_def)
  have k: "(case solve_then_run 0 0 [Tick 1, Tick 2] ?S of
              Some (Inr (evs, s)) \<Rightarrow> Solved [(1, 3), (1, 2), (1, 1)] \<in> set evs
            | _ \<Rightarrow> False)"
    by code_simp
  then obtain evs s where r: "solve_then_run 0 0 [Tick 1, Tick 2] ?S = Some (Inr (evs, s))"
    and m: "Solved [(1, 3), (1, 2), (1, 1)] \<in> set evs"
    by (auto split: option.splits sum.splits prod.splits)
  from solution_path_order[OF f(1) wf f(2,3) r m]
  have "linked (parents s) [(1, 3), (1, 2), (1, 1)]" "parents s (1, 1) = Some None"
    "draw_solution_path s = Some [(1, 3), (1, 2), (1, 1)]"
    by simp_all
  with r m have "\<exists>evs s. solve_then_run 0 0 [Tick 1, Tick 2] ?S = Some (Inr (evs, s))
               \<and> Solved [(1, 3), (1, 2), (1, 1)] \<in> set evs
               \<and> hd [(1, 3), (1, 2), (1, 1)] = ((1, 3) :: coord)
               \<and> last [(1, 3), (1, 2), (1, 1)] = ((1, 1) :: coord)
               \<and> linked (parents s) [(1, 3), (1, 2), (1, 1)]
               \<and> parents s (1, 1) = Some None
               \<and> draw_solution_path s = Some [(1, 3), (1, 2), (1, 1)]"
    by auto
  with f wf show ?thesis by (intro conjI)
qed

text \<open>The claim as stated: on the corridor fixture each of the four algorithms reports the
  path [(1,1), (1,2), (1,3)], from start to goal. Each reports [(1,3), (1,2), (1,1)], from
  goal to start.\<close>

theorem corridor_path_goal_first:
  "painted (solve_then_run 0 0 [Tick 1, Tick 2] (ready corridor (1, 1) (1, 3) ''BFS''))
     = Some (Inr [Visited [(1, 2)], Visited [(1, 3)], Solved [(1, 3), (1, 2), (1, 1)]])
   \<and> painted (solve_then_run 0 0 [Tick 1, Tick 2] (ready corridor (1, 1) (1, 3) ''DFS''))
     = Some (Inr [Visited [(1, 2)], Visited [(1, 3)], Solved [(1, 3), (1, 2), (1, 1)]])
   \<and> painted (solve_then_run 0 0 [Tick 1, Tick 2] (ready corridor (1, 1) (1, 3) ''Dijkstra''))
     = Some (Inr [Visited [(1, 2)], Visited [(1, 3)], Solved [(1, 3), (1, 2), (1, 1)]])
   \<and> painted (solve_then_run 0 0 [Tick 1, Tick 2] (ready corridor (1, 1) (1, 3) ''A*''))
     = Some (Inr [Visited [(1, 2)], Visited [(1, 3)], Solved [(1, 3), (1, 2), (1, 1)]])
   \<and> [(1, 3), (1, 2), (1, 1)] \<noteq> [(1, 1), (1, 2), ((1, 3) :: coord)]"
  using corridor_bfs corridor_dfs corridor_dijkstra corridor_astar by simp

section \<open>Counting the steps of a search\<close>

text \<open>The cells that can be reached from \<open>st\<close>, the start included.\<close>

definition region :: "grid \<Rightarrow> coord \<Rightarrow> coord set" where
  "region g st = {c. reach g st c}"

lemma finite_passages: "finite {c. passage g c}"
proof -
  have "{c. passage g c} \<subseteq> {0..<int (length (hd g))} \<times> {0..<int (length g)}"
    by (auto simp: passage_def)
  moreover have "finite ({0..<int (length (hd g))} \<times> {0..<int (length g)})" by simp
  ultimately show ?thesis by (rule finite_subset)
qed

lemma reach_cases_passage: "reach g st c \<Longrightarrow> c = st \<or> passage g c"
  by (induction rule: reach.induct) auto

lemma finite_region: "finite (region g st)"
proof -
  have "region g st \<subseteq> insert st {c. passage g c}"
    unfolding region_def using reach_cases_passage by blast
  moreover have "finite (insert st {c. passage g c})" using finite_passages by simp
  ultimately show ?thesis by (rule finite_subset)
qed

lemma region_passages:
  assumes "passage g st"
  shows "region g st = {c. passage g c \<and> reach g st c}"
  unfolding region_def using assms reach_cases_passage by blast

text \<open>Every recorded cell is still in the frontier \<open>F\<close>, or all its passage neighbours are
  recorded.\<close>

definition closed_but :: "grid \<Rightarrow> (coord \<Rightarrow> coord option option) \<Rightarrow> coord list \<Rightarrow> bool" where
  "closed_but g ps F =
     (\<forall>v. ps v \<noteq> None \<longrightarrow> v \<in> set F \<or> (\<forall>n. adjacent v n \<and> passage g n \<longrightarrow> ps n \<noteq> None))"

text \<open>The number of steps still to come: the reachable cells not yet recorded, and the
  frontier entries.\<close>

definition todo :: "grid \<Rightarrow> coord \<Rightarrow> (coord \<Rightarrow> coord option option) \<Rightarrow> coord list \<Rightarrow> nat" where
  "todo g st ps F = card (region g st - {v. ps v \<noteq> None}) + length F"

lemma closed_but_empty:
  assumes "closed_but g ps []" and "ps st \<noteq> None"
  shows "region g st \<subseteq> {v. ps v \<noteq> None}"
proof
  fix c assume "c \<in> region g st"
  then have r: "reach g st c" by (simp add: region_def)
  show "c \<in> {v. ps v \<noteq> None}"
  proof (rule reach_closed[OF r])
    show "st \<in> {v. ps v \<noteq> None}" using assms(2) by simp
  next
    fix a b assume "a \<in> {v. ps v \<noteq> None}" and "adjacent a b" and "passage g b"
    with assms(1) show "b \<in> {v. ps v \<noteq> None}" unfolding closed_but_def
      by (auto simp del: split_paired_All split_paired_Ex)
  qed
qed

lemma todo_empty:
  assumes "closed_but g ps []" and "ps st \<noteq> None"
  shows "todo g st ps [] = 0"
proof -
  from closed_but_empty[OF assms] have e: "region g st - {v. ps v \<noteq> None} = {}" by blast
  show ?thesis unfolding todo_def e by simp
qed

lemma todo_init: "todo g st [st \<mapsto> None] [st] = card (region g st)"
proof -
  have d: "{v. [st \<mapsto> None] v \<noteq> None} = {st}" by auto
  have m: "st \<in> region g st" by (simp add: region_def reach_start)
  have "card (region g st - {st}) = card (region g st) - 1"
    using m finite_region[of g st] by (simp add: card_Diff_singleton)
  moreover have "0 < card (region g st)"
    using m finite_region[of g st] by (auto simp: card_gt_0_iff)
  ultimately have "card (region g st - {st}) + length [st] = card (region g st)" by simp
  then show ?thesis unfolding todo_def d .
qed

lemma closed_but_init: "closed_but g [st \<mapsto> None] [st]"
  by (simp add: closed_but_def)

lemma expand_todo:
  assumes sub: "\<forall>v. ps v \<noteq> None \<longrightarrow> reach g st v"
    and cl: "closed_but g ps F" and u: "ps u \<noteq> None"
    and len: "Suc (length rest) = length F" and keep: "set F \<subseteq> insert u (set rest)"
    and new: "new = fresh g ps (nbrs u directions)"
  shows "closed_but g (adopt ps u new) (rest @ new)
         \<and> Suc (todo g st (adopt ps u new) (rest @ new)) = todo g st ps F"
proof -
  let ?D = "{v. ps v \<noteq> None}" and ?R = "region g st"
  have newset: "set new = {n. adjacent u n \<and> passage g n \<and> ps n = None}"
    unfolding new by (rule set_fresh_directions)
  have dnew: "distinct new" unfolding new by (rule distinct_fresh_directions)
  have found: "{v. adopt ps u new v \<noteq> None} = ?D \<union> set new"
    by (auto simp: adopt_def)
  have ru: "reach g st u" using sub u by blast
  have newR: "set new \<subseteq> ?R - ?D"
  proof
    fix n assume "n \<in> set new"
    with newset have "adjacent u n" "passage g n" "ps n = None" by auto
    with ru have "reach g st n" by (auto intro: reach_step)
    with \<open>ps n = None\<close> show "n \<in> ?R - ?D" by (simp add: region_def)
  qed
  have fin: "finite (?R - ?D)" using finite_region[of g st] by simp
  have "?R - (?D \<union> set new) = (?R - ?D) - set new" by blast
  then have "card (?R - (?D \<union> set new)) = card (?R - ?D) - card (set new)"
    using card_Diff_subset[OF _ newR] by simp
  moreover have "card (set new) = length new" using dnew by (rule distinct_card)
  moreover have "card (set new) \<le> card (?R - ?D)" using newR fin by (rule card_mono[rotated])
  ultimately have "Suc (card (?R - (?D \<union> set new)) + (length rest + length new))
                   = card (?R - ?D) + Suc (length rest)"
    by simp
  then have t: "Suc (todo g st (adopt ps u new) (rest @ new)) = todo g st ps F"
    unfolding todo_def found using len by simp
  have c: "closed_but g (adopt ps u new) (rest @ new)"
    unfolding closed_but_def
  proof (intro allI impI)
    fix v assume a: "adopt ps u new v \<noteq> None"
    show "v \<in> set (rest @ new)
          \<or> (\<forall>n. adjacent v n \<and> passage g n \<longrightarrow> adopt ps u new n \<noteq> None)"
    proof (cases "v \<in> set new")
      case True
      then show ?thesis by simp
    next
      case False
      with a have pv: "ps v \<noteq> None" by (simp add: adopt_def)
      show ?thesis
      proof (cases "v = u")
        case True
        have "\<forall>n. adjacent v n \<and> passage g n \<longrightarrow> adopt ps u new n \<noteq> None"
        proof (intro allI impI)
          fix n assume "adjacent v n \<and> passage g n"
          with True newset show "adopt ps u new n \<noteq> None"
            by (cases "ps n = None") (auto simp: adopt_def)
        qed
        then show ?thesis by blast
      next
        case vu: False
        from cl pv have "v \<in> set F \<or> (\<forall>n. adjacent v n \<and> passage g n \<longrightarrow> ps n \<noteq> None)"
          unfolding closed_but_def by blast
        then show ?thesis
        proof
          assume "v \<in> set F"
          with keep vu have "v \<in> set rest" by auto
          then show ?thesis by simp
        next
          assume "\<forall>n. adjacent v n \<and> passage g n \<longrightarrow> ps n \<noteq> None"
          then have "\<forall>n. adjacent v n \<and> passage g n \<longrightarrow> adopt ps u new n \<noteq> None"
            by (auto simp: adopt_def)
          then show ?thesis by blast
        qed
      qed
    qed
  qed
  from c t show ?thesis by blast
qed

text \<open>A tick function that counts down: with \<open>k\<close> steps to come it paints cells and leaves
  \<open>k - 1\<close> to come; with none to come it shows "No path found!".\<close>

lemma countdown:
  assumes step: "\<And>now s k. J (Suc k) s \<Longrightarrow> \<exists>vs s'. tick now s = Some (Inr (Visited vs, s')) \<and> J k s'"
    and stop: "\<And>now s. J 0 s \<Longrightarrow> tick now s = Some (Inr (NoSolution, s\<lparr>solving := False\<rparr>))"
    and J: "J k s" and len: "length ts = Suc k"
  shows "\<exists>vss s'. run tick (map Tick ts) s
                    = Some (Inr (map Visited vss @ [NoSolution], s'\<lparr>solving := False\<rparr>))
                 \<and> length vss = k \<and> J 0 s'"
  using J len
proof (induction k arbitrary: s ts)
  case 0
  then obtain t where ts: "ts = [t]" by (cases ts) auto
  from stop[OF "0.prems"(1), of t] "0.prems"(1) show ?case
    unfolding ts by (intro exI[of _ "[]"] exI[of _ s]) simp
next
  case (Suc k)
  then obtain t ts' where ts: "ts = t # ts'" and l: "length ts' = Suc k" by (cases ts) auto
  from step[OF Suc.prems(1), of t] obtain vs s1 where
    t: "tick t s = Some (Inr (Visited vs, s1))" and j: "J k s1" by blast
  from Suc.IH[OF j l] obtain vss s' where
    r: "run tick (map Tick ts') s1 = Some (Inr (map Visited vss @ [NoSolution], s'\<lparr>solving := False\<rparr>))"
    and n: "length vss = k" and j0: "J 0 s'"
    by blast
  from t r have "run tick (map Tick ts) s
      = Some (Inr (map Visited (vs # vss) @ [NoSolution], s'\<lparr>solving := False\<rparr>))"
    unfolding ts by simp
  with n j0 show ?case by (intro exI[of _ "vs # vss"] exI[of _ s']) simp
qed

section \<open>The order in which the priority queues are emptied\<close>

lemma adjacent_manhattan:
  assumes "adjacent a b"
  shows "\<bar>manhattan a e - manhattan b e\<bar> = 1"
proof -
  obtain ax ay where a: "a = (ax, ay)" by (cases a)
  obtain bx "by" where b: "b = (bx, by)" by (cases b)
  obtain ex ey where e: "e = (ex, ey)" by (cases e)
  from assms have "\<bar>ax - bx\<bar> + \<bar>ay - by\<bar> = 1" unfolding a b adjacent_def by simp
  then have "(ax = bx \<and> (ay = by + 1 \<or> ay = by - 1)) \<or> (ay = by \<and> (ax = bx + 1 \<or> ax = bx - 1))"
    by arith
  then show ?thesis unfolding a b e manhattan_def by auto
qed

lemma walk_parity:
  assumes "walk g a n b"
  shows "even (int n - manhattan b a)"
  using assms
proof (induction rule: walk.induct)
  case walk_start
  show ?case by (simp add: manhattan_def)
next
  case (walk_step n b c)
  from adjacent_manhattan[OF walk_step.hyps(2), of a]
  have "manhattan c a = manhattan b a + 1 \<or> manhattan c a = manhattan b a - 1" by linarith
  with walk_step.IH show ?case by auto
qed

text \<open>The pairs (f, g) of two queue entries, compared as Python compares tuples.\<close>

definition lexle :: "int \<times> int \<Rightarrow> int \<times> int \<Rightarrow> bool" where
  "lexle a b = (fst a < fst b \<or> (fst a = fst b \<and> snd a \<le> snd b))"

lemma lexle_trans: "lexle a b \<Longrightarrow> lexle b c \<Longrightarrow> lexle a c"
  by (auto simp: lexle_def)

lemma lexle_pair:
  fixes c c' :: int and u v :: coord
  assumes "(c, u) \<le> (c', v)"
  shows "lexle (c, c) (c', c')"
  using assms by (auto simp: lexle_def less_eq_prod_def)

lemma lexle_triple:
  fixes f f' c c' :: int and u v :: coord
  assumes "(f, c, u) \<le> (f', c', v)"
  shows "lexle (f, c) (f', c')"
  using assms by (auto simp: lexle_def less_eq_prod_def)

text \<open>
  \<open>T\<close> lists the queue entries as triples \<open>(f, g, cell)\<close>; for Dijkstra \<open>f = g\<close> and the
  estimate \<open>hf\<close> is 0. Apart from the first entry \<open>(0, 0, start)\<close> every entry has
  \<open>f = g + hf cell\<close>, and no entry comes before the pair with which the parent of a recorded
  cell was taken from the queue.
\<close>

definition mono_inv :: "(coord \<Rightarrow> int) \<Rightarrow> coord \<Rightarrow> (coord \<Rightarrow> int option) \<Rightarrow> (coord \<Rightarrow> coord option option)
                        \<Rightarrow> (int \<times> int \<times> coord) list \<Rightarrow> bool" where
  "mono_inv hf st dm ps T =
     (((\<forall>t \<in> set T. fst t = fst (snd t) + hf (snd (snd t)))
       \<or> (T = [(0, 0, st)] \<and> (\<forall>n. ps n \<noteq> None \<longrightarrow> n = st)))
      \<and> (\<forall>n p old. ps n = Some (Some p) \<and> dm n = Some old
            \<longrightarrow> (\<forall>t \<in> set T. lexle (old - 1 + hf p, old - 1) (fst t, fst (snd t)))))"

definition lipschitz :: "(coord \<Rightarrow> int) \<Rightarrow> bool" where
  "lipschitz hf = (\<forall>a b. adjacent a b \<longrightarrow> \<bar>hf a - hf b\<bar> \<le> 1)"

lemma lipschitz_zero: "lipschitz (\<lambda>_. 0)"
  by (simp add: lipschitz_def)

lemma lipschitz_manhattan: "lipschitz (\<lambda>n. manhattan n e)"
  unfolding lipschitz_def using adjacent_manhattan[of _ _ e] by auto

lemma mono_inv_init: "mono_inv hf st [st \<mapsto> 0] [st \<mapsto> None] [(0, 0, st)]"
  by (auto simp: mono_inv_def)

text \<open>A cell next to the cell taken from the queue is never recorded with a cost that the
  step could lower.\<close>

lemma no_repush:
  assumes ci: "cost_inv g st dm ps (map snd T)" and mi: "mono_inv hf st dm ps T"
    and lip: "lipschitz hf" and u: "(f, c, u) \<in> set T"
    and least: "\<forall>t \<in> set T. lexle (f, c) (fst t, fst (snd t))"
    and adj: "adjacent u n" and pn: "passage g n" and old: "dm n = Some old"
  shows "old \<le> c + 1"
proof (rule ccontr)
  assume "\<not> old \<le> c + 1"
  then have gt: "c + 1 < old" by simp
  from ci have st: "ps st = Some None" "dm st = Some 0"
    and only: "\<forall>v. ps v = Some None \<longrightarrow> v = st"
    and same: "\<forall>v. (ps v \<noteq> None) = (dm v \<noteq> None)"
    and par: "\<forall>v p. ps v = Some (Some p) \<longrightarrow>
             (\<exists>dv dp. dm v = Some dv \<and> dm p = Some dp \<and> dp < dv) \<and> adjacent p v \<and> passage g v"
    and dw: "\<forall>v d. dm v = Some d \<longrightarrow> 0 \<le> d \<and> walk g st (nat d) v"
    and ent: "\<forall>(c, v) \<in> set (map snd T). (\<exists>d. dm v = Some d \<and> d \<le> c) \<and> walk g st (nat c) v"
    by (simp_all add: cost_inv_def)
  from u have "(c, u) \<in> set (map snd T)" by force
  with ent obtain du where du: "dm u = Some du" "du \<le> c" and wu: "walk g st (nat c) u"
    by fastforce
  from dw du(1) have "0 \<le> du" by blast
  with du(2) have c0: "0 \<le> c" by simp
  have nst: "n \<noteq> st" using st(2) old gt c0 by auto
  from spec[OF same, of n] old have "ps n \<noteq> None" by simp
  then obtain pv where pv: "ps n = Some pv" by auto
  have "pv \<noteq> None"
  proof
    assume "pv = None"
    with pv have "ps n = Some None" by simp
    with only nst show False by blast
  qed
  with pv obtain p where p: "ps n = Some (Some p)" by auto
  from par p have ap: "adjacent p n" by blast
  from mi p old have key: "\<forall>t \<in> set T. lexle (old - 1 + hf p, old - 1) (fst t, fst (snd t))"
    unfolding mono_inv_def by blast
  from key u have k: "lexle (old - 1 + hf p, old - 1) (f, c)" by force
  from mi have "(\<forall>t \<in> set T. fst t = fst (snd t) + hf (snd (snd t)))
       \<or> (T = [(0, 0, st)] \<and> (\<forall>n. ps n \<noteq> None \<longrightarrow> n = st))"
    unfolding mono_inv_def by blast
  then have f: "f = c + hf u"
  proof
    assume "\<forall>t \<in> set T. fst t = fst (snd t) + hf (snd (snd t))"
    with u show ?thesis by force
  next
    assume "T = [(0, 0, st)] \<and> (\<forall>n. ps n \<noteq> None \<longrightarrow> n = st)"
    with \<open>ps n \<noteq> None\<close> nst show ?thesis by blast
  qed
  from dw old have wn: "walk g st (nat old) n" and o0: "0 \<le> old" by blast+
  from wu adj pn have wn': "walk g st (Suc (nat c)) n" by (rule walk_step)
  from walk_parity[OF wn] walk_parity[OF wn'] have "even (int (nat old) - int (Suc (nat c)))"
    by auto
  with o0 c0 have ev: "even (old - (c + 1))" by simp
  with gt have big: "c + 3 \<le> old" by presburger
  from k big have lt: "old - 1 + hf p < c + hf u" unfolding f lexle_def by auto
  from lip adj have "\<bar>hf u - hf n\<bar> \<le> 1" unfolding lipschitz_def by blast
  moreover from lip ap have "\<bar>hf p - hf n\<bar> \<le> 1" unfolding lipschitz_def by blast
  ultimately have "hf u - hf p \<le> 2" by linarith
  with lt big show False by linarith
qed

lemma improved_fresh:
  assumes ci: "cost_inv g st dm ps (map snd T)" and mi: "mono_inv hf st dm ps T"
    and lip: "lipschitz hf" and u: "(f, c, u) \<in> set T"
    and least: "\<forall>t \<in> set T. lexle (f, c) (fst t, fst (snd t))"
  shows "improved g dm (c + 1) (nbrs u directions) = fresh g ps (nbrs u directions)"
  unfolding improved_def fresh_def
proof (rule filter_cong[OF refl])
  fix n assume "n \<in> set (nbrs u directions)"
  then have adj: "adjacent u n" by (simp add: set_nbrs_directions)
  from ci have same: "\<forall>v. (ps v \<noteq> None) = (dm v \<noteq> None)" by (simp add: cost_inv_def)
  show "(passage g n \<and> better dm (c + 1) n) = (passage g n \<and> ps n = None)"
  proof (cases "passage g n")
    case False
    then show ?thesis by simp
  next
    case True
    show ?thesis
    proof (cases "dm n")
      case None
      with spec[OF same, of n] show ?thesis by (simp add: better_def)
    next
      case (Some old)
      from no_repush[OF ci mi lip u least adj True Some] have "\<not> c + 1 < old" by simp
      with Some spec[OF same, of n] show ?thesis by (simp add: better_def)
    qed
  qed
qed

lemma mono_inv_step:
  assumes ci: "cost_inv g st dm ps (map snd T)" and mi: "mono_inv hf st dm ps T"
    and lip: "lipschitz hf" and u: "(f, c, u) \<in> set T"
    and least: "\<forall>t \<in> set T. lexle (f, c) (fst t, fst (snd t))"
    and rest: "rest = remove1 (f, c, u) T"
    and new: "new = fresh g ps (nbrs u directions)"
  shows "mono_inv hf st (settle dm (c + 1) new) (adopt ps u new)
           (rest @ map (\<lambda>n. (c + 1 + hf n, c + 1, n)) new)"
proof -
  let ?dm = "settle dm (c + 1) new" and ?ps = "adopt ps u new"
  let ?T = "rest @ map (\<lambda>n. (c + 1 + hf n, c + 1, n)) new"
  have newset: "set new = {n. adjacent u n \<and> passage g n \<and> ps n = None}"
    unfolding new by (rule set_fresh_directions)
  have sub: "set rest \<subseteq> set T" unfolding rest by (rule set_remove1_subset)
  from mi have shape: "(\<forall>t \<in> set T. fst t = fst (snd t) + hf (snd (snd t)))
       \<or> (T = [(0, 0, st)] \<and> (\<forall>n. ps n \<noteq> None \<longrightarrow> n = st))"
    and keys: "\<forall>n p old. ps n = Some (Some p) \<and> dm n = Some old
            \<longrightarrow> (\<forall>t \<in> set T. lexle (old - 1 + hf p, old - 1) (fst t, fst (snd t)))"
    unfolding mono_inv_def by blast+
  have s1: "\<forall>t \<in> set ?T. fst t = fst (snd t) + hf (snd (snd t))"
  proof
    fix t assume "t \<in> set ?T"
    then consider "t \<in> set rest" | n where "t = (c + 1 + hf n, c + 1, n)" by auto
    then show "fst t = fst (snd t) + hf (snd (snd t))"
    proof cases
      case 1
      from shape show ?thesis
      proof
        assume "\<forall>t \<in> set T. fst t = fst (snd t) + hf (snd (snd t))"
        with 1 sub show ?thesis by blast
      next
        assume a: "T = [(0, 0, st)] \<and> (\<forall>n. ps n \<noteq> None \<longrightarrow> n = st)"
        with u have "(f, c, u) = (0, 0, st)" by simp
        with a have "rest = []" unfolding rest by simp
        with 1 show ?thesis by simp
      qed
    next
      case 2
      then show ?thesis by simp
    qed
  qed
  have fresh_key: "\<And>n'. adjacent u n' \<Longrightarrow> lexle (c + hf u, c) (c + 1 + hf n', c + 1)"
  proof -
    fix n' assume "adjacent u n'"
    with lip have "\<bar>hf u - hf n'\<bar> \<le> 1" unfolding lipschitz_def by blast
    then show "lexle (c + hf u, c) (c + 1 + hf n', c + 1)" unfolding lexle_def by auto
  qed
  have s2: "\<forall>n p old. ?ps n = Some (Some p) \<and> ?dm n = Some old
            \<longrightarrow> (\<forall>t \<in> set ?T. lexle (old - 1 + hf p, old - 1) (fst t, fst (snd t)))"
  proof (intro allI impI ballI)
    fix n p old t
    assume a: "?ps n = Some (Some p) \<and> ?dm n = Some old" and t: "t \<in> set ?T"
    from t consider "t \<in> set rest" | n' where "n' \<in> set new" "t = (c + 1 + hf n', c + 1, n')"
      by auto
    then show "lexle (old - 1 + hf p, old - 1) (fst t, fst (snd t))"
    proof cases
      case 1
      then have tT: "t \<in> set T" using sub by blast
      show ?thesis
      proof (cases "n \<in> set new")
        case True
        with a have pu: "p = u" and o: "old = c + 1" by (simp_all add: adopt_new settle_new)
        from shape show ?thesis
        proof
          assume "\<forall>t \<in> set T. fst t = fst (snd t) + hf (snd (snd t))"
          with u have "f = c + hf u" by force
          with least tT show ?thesis unfolding pu o by simp
        next
          assume b: "T = [(0, 0, st)] \<and> (\<forall>n. ps n \<noteq> None \<longrightarrow> n = st)"
          with u have "(f, c, u) = (0, 0, st)" by simp
          with b have "rest = []" unfolding rest by simp
          with 1 show ?thesis by simp
        qed
      next
        case False
        with a have "ps n = Some (Some p) \<and> dm n = Some old" by (simp add: adopt_old settle_old)
        with keys tT show ?thesis by blast
      qed
    next
      case 2
      from 2(1) newset have an: "adjacent u n'" by blast
      show ?thesis
      proof (cases "n \<in> set new")
        case True
        with a have pu: "p = u" and o: "old = c + 1" by (simp_all add: adopt_new settle_new)
        from fresh_key[OF an] show ?thesis unfolding pu o 2(2) by simp
      next
        case False
        with a have b: "ps n = Some (Some p) \<and> dm n = Some old"
          by (simp add: adopt_old settle_old)
        with keys have "\<forall>t \<in> set T. lexle (old - 1 + hf p, old - 1) (fst t, fst (snd t))"
          by blast
        from bspec[OF this u] have k: "lexle (old - 1 + hf p, old - 1) (f, c)" by simp
        from shape have "f = c + hf u"
        proof
          assume "\<forall>t \<in> set T. fst t = fst (snd t) + hf (snd (snd t))"
          with u show ?thesis by force
        next
          assume c: "T = [(0, 0, st)] \<and> (\<forall>n. ps n \<noteq> None \<longrightarrow> n = st)"
          from b have "ps n \<noteq> None" by simp
          with c have "n = st" by blast
          moreover from ci have "ps st = Some None" by (simp add: cost_inv_def)
          ultimately show ?thesis using b by simp
        qed
        with k fresh_key[OF an] have "lexle (old - 1 + hf p, old - 1) (c + 1 + hf n', c + 1)"
          using lexle_trans by blast
        then show ?thesis unfolding 2(2) by simp
      qed
    qed
  qed
  from s1 s2 show ?thesis unfolding mono_inv_def by blast
qed

section \<open>Every step takes one entry from the frontier\<close>

text \<open>The cells in the frontier, and the frontier of the two priority-queue searches as a
  list of triples \<open>(f, g, cell)\<close>.\<close>

definition cells_of :: "frontier \<Rightarrow> coord list" where
  "cells_of fr = (case fr of Cells q \<Rightarrow> q | Costs h \<Rightarrow> map snd h | FCosts h \<Rightarrow> map (\<lambda>t. snd (snd t)) h)"

definition twice :: "int \<times> coord \<Rightarrow> int \<times> int \<times> coord" where
  "twice t = (fst t, fst t, snd t)"

definition order_inv :: "coord \<Rightarrow> coord \<Rightarrow> app \<Rightarrow> bool" where
  "order_inv e st s =
     (case search_nodes s of
        Cells q \<Rightarrow> True
      | Costs h \<Rightarrow> mono_inv (\<lambda>_. 0) st (distances s) (parents s) (map twice h)
      | FCosts h \<Rightarrow> mono_inv (\<lambda>n. manhattan n e) st (distances s) (parents s) h)"

text \<open>A running, unpaused search that has \<open>k\<close> frontier entries still to take.\<close>

definition progress_inv :: "grid \<Rightarrow> coord \<Rightarrow> coord \<Rightarrow> string \<Rightarrow> nat \<Rightarrow> app \<Rightarrow> bool" where
  "progress_inv g st e algo k s =
     (search_inv g st e algo s \<and> order_inv e st s \<and> solving s \<and> \<not> paused s
      \<and> closed_but g (parents s) (cells_of (search_nodes s))
      \<and> todo g st (parents s) (cells_of (search_nodes s)) = k)"

lemma set_remove1_keep: "set xs \<subseteq> insert x (set (remove1 x xs))"
  by (induction xs) auto

lemma map_remove1_inj:
  assumes "inj f"
  shows "map f (remove1 x xs) = remove1 (f x) (map f xs)"
  using assms by (induction xs) (auto dest: injD)

lemma inj_twice: "inj twice"
  by (auto simp: inj_def twice_def prod_eq_iff)

lemma map_snd_twice: "map snd (map twice h) = h"
  by (induction h) (simp_all add: twice_def)

lemma cost_inv_reach:
  assumes "cost_inv g st dm ps H" and "ps v \<noteq> None"
  shows "reach g st v"
proof -
  from assms(1) have same: "\<forall>v. (ps v \<noteq> None) = (dm v \<noteq> None)"
    and dw: "\<forall>v d. dm v = Some d \<longrightarrow> 0 \<le> d \<and> walk g st (nat d) v"
    by (simp_all add: cost_inv_def)
  from spec[OF same, of v] assms(2) obtain d where "dm v = Some d" by auto
  with dw have "walk g st (nat d) v" by blast
  then show ?thesis by (rule walk_reach)
qed

lemma search_inv_parts:
  assumes "search_inv g st e algo s"
  shows "(\<forall>v. parents s v \<noteq> None \<longrightarrow> reach g st v) \<and> parents s st = Some None
         \<and> (\<forall>v \<in> set (cells_of (search_nodes s)). parents s v \<noteq> None)"
proof (cases "search_nodes s")
  case (Cells q)
  with assms have "plain_inv g st (parents s) q" by (simp add: search_inv_def)
  then show ?thesis unfolding plain_inv_def cells_of_def Cells by auto
next
  case (Costs h)
  with assms have ci: "cost_inv g st (distances s) (parents s) h" by (simp add: search_inv_def)
  have a: "\<forall>v. parents s v \<noteq> None \<longrightarrow> reach g st v"
    using cost_inv_reach[OF ci] by blast
  have b: "\<forall>v \<in> set (cells_of (search_nodes s)). parents s v \<noteq> None"
    unfolding Costs cells_of_def using cost_inv_recorded[OF ci] by auto
  from ci have "parents s st = Some None" by (simp add: cost_inv_def)
  with a b show ?thesis by blast
next
  case (FCosts h)
  with assms have ci: "cost_inv g st (distances s) (parents s) (map snd h)"
    by (simp add: search_inv_def)
  have a: "\<forall>v. parents s v \<noteq> None \<longrightarrow> reach g st v"
    using cost_inv_reach[OF ci] by blast
  have b: "\<forall>v \<in> set (cells_of (search_nodes s)). parents s v \<noteq> None"
  proof
    fix v assume "v \<in> set (cells_of (search_nodes s))"
    then obtain f c where "(f, c, v) \<in> set h" unfolding FCosts cells_of_def by auto
    then have "(c, v) \<in> set (map snd h)" by force
    from cost_inv_recorded[OF ci this] show "parents s v \<noteq> None" .
  qed
  from ci have "parents s st = Some None" by (simp add: cost_inv_def)
  with a b show ?thesis by blast
qed

lemma progress_nonempty:
  assumes "progress_inv g st e algo (Suc k) s"
  shows "cells_of (search_nodes s) \<noteq> []"
proof
  assume em: "cells_of (search_nodes s) = []"
  from assms have si: "search_inv g st e algo s"
    and cl: "closed_but g (parents s) (cells_of (search_nodes s))"
    and td: "todo g st (parents s) (cells_of (search_nodes s)) = Suc k"
    by (simp_all add: progress_inv_def)
  from search_inv_parts[OF si] have "parents s st \<noteq> None" by simp
  from todo_empty[OF cl[unfolded em] this] td em show False by simp
qed

lemma progress_stop:
  assumes "progress_inv g st e algo 0 s"
  shows "animate algo now s = Some (Inr (NoSolution, s\<lparr>solving := False\<rparr>))"
proof -
  from assms have si: "search_inv g st e algo s" and sol: "solving s" and np: "\<not> paused s"
    and td: "todo g st (parents s) (cells_of (search_nodes s)) = 0"
    by (simp_all add: progress_inv_def)
  from td have em: "cells_of (search_nodes s) = []" by (simp add: todo_def)
  show ?thesis
  proof (cases "search_nodes s")
    case (Cells q)
    with em have q: "search_nodes s = Cells []" by (simp add: cells_of_def)
    from si Cells have al: "algo \<noteq> ''Dijkstra''" "algo \<noteq> ''A*''" by (simp_all add: search_inv_def)
    show ?thesis
    proof (cases "algo = ''DFS''")
      case True
      then have "animate algo = animate_dfs" by (simp add: animate_def)
      with animate_dfs_empty[OF sol np q, of now] show ?thesis by simp
    next
      case False
      with al have "animate algo = animate_bfs" by (simp add: animate_def)
      with animate_bfs_empty[OF sol np q, of now] show ?thesis by simp
    qed
  next
    case (Costs h)
    with em have q: "search_nodes s = Costs []" by (simp add: cells_of_def)
    from si Costs have "algo = ''Dijkstra''" by (simp add: search_inv_def)
    then have "animate algo = animate_dijkstra" by (simp add: animate_def)
    with animate_dijkstra_empty[OF sol np q, of now] show ?thesis by simp
  next
    case (FCosts h)
    with em have q: "search_nodes s = FCosts []" by (simp add: cells_of_def)
    from si FCosts have "algo = ''A*''" by (simp add: search_inv_def)
    then have "animate algo = animate_astar" by (simp add: animate_def)
    with animate_astar_empty[OF sol np q, of now] show ?thesis by simp
  qed
qed

lemma progress_begin:
  assumes "wf_grid g" and "maze s0 = Some g" and "end_point s0 = Some e" and "\<not> paused s0"
  shows "progress_inv g st e (algorithm_var s0) (card (region g st)) (begin_search now st s0)"
proof -
  let ?s = "begin_search now st s0"
  have si: "search_inv g st e (algorithm_var s0) ?s" by (rule search_inv_begin[OF assms(1-3)])
  have ps: "parents ?s = [st \<mapsto> None]" by (simp add: begin_search_def Let_def)
  have cells: "cells_of (search_nodes ?s) = [st]"
    by (simp add: begin_search_def Let_def cells_of_def)
  have ord: "order_inv e st ?s"
    using mono_inv_init[of _ st]
    by (simp add: order_inv_def begin_search_def Let_def twice_def)
  have fl: "solving ?s" "\<not> paused ?s" using assms(4) by (simp_all add: begin_search_def Let_def)
  from si ord fl show ?thesis
    unfolding progress_inv_def ps cells using closed_but_init[of g st] todo_init[of g st] by simp
qed

lemma bfs_progress:
  assumes pi: "progress_inv g st e algo (Suc k) s" and q: "search_nodes s = Cells (u # rest)"
    and al: "algo \<noteq> ''DFS''" and ne: "e \<noteq> u"
    and new: "new = fresh g (parents s) (nbrs u directions)"
    and s': "s' = s\<lparr>search_nodes := Cells (rest @ new), parents := adopt (parents s) u new\<rparr>"
  shows "animate algo now s = Some (Inr (Visited new, s')) \<and> progress_inv g st e algo k s'"
proof -
  from pi have si: "search_inv g st e algo s" and sol: "solving s" and np: "\<not> paused s"
    and cl: "closed_but g (parents s) (cells_of (search_nodes s))"
    and td: "todo g st (parents s) (cells_of (search_nodes s)) = Suc k"
    by (simp_all add: progress_inv_def)
  from si have wf: "wf_grid g" and m: "maze s = Some g" and e: "end_point s = Some e"
    by (simp_all add: search_inv_def)
  from si q have "algo \<noteq> ''Dijkstra''" "algo \<noteq> ''A*''" by (simp_all add: search_inv_def)
  with al have a: "animate algo = animate_bfs" by (simp add: animate_def)
  from e ne have ne': "end_point s \<noteq> Some u" by simp
  from animate_bfs_expand[OF wf m sol np q ne', of now]
  have eq: "animate algo now s = Some (Inr (Visited new, s'))" unfolding a new s' by simp
  from search_inv_step[OF si, of now] eq have si': "search_inv g st e algo s'" by auto
  from search_inv_parts[OF si] have sub: "\<forall>v. parents s v \<noteq> None \<longrightarrow> reach g st v"
    and rec: "\<forall>v \<in> set (cells_of (search_nodes s)). parents s v \<noteq> None"
    by blast+
  from rec have pu: "parents s u \<noteq> None" unfolding q cells_of_def by simp
  have cells: "cells_of (search_nodes s) = u # rest" unfolding q cells_of_def by simp
  have "closed_but g (adopt (parents s) u new) (rest @ new)
         \<and> Suc (todo g st (adopt (parents s) u new) (rest @ new)) = todo g st (parents s) (u # rest)"
    by (rule expand_todo[OF sub cl[unfolded cells] pu _ _ new]) auto
  with td cells have "closed_but g (parents s') (cells_of (search_nodes s'))"
    "todo g st (parents s') (cells_of (search_nodes s')) = k"
    unfolding s' by (simp_all add: cells_of_def)
  with si' sol np have "progress_inv g st e algo k s'"
    unfolding progress_inv_def by (simp add: s' order_inv_def)
  with eq show ?thesis by blast
qed

lemma dfs_progress:
  assumes pi: "progress_inv g st e algo (Suc k) s" and q: "search_nodes s = Cells q"
    and al: "algo = ''DFS''" and ne: "e \<noteq> last q"
    and new: "new = fresh g (parents s) (nbrs (last q) directions)"
    and s': "s' = s\<lparr>search_nodes := Cells (butlast q @ new),
                     parents := adopt (parents s) (last q) new\<rparr>"
  shows "animate algo now s = Some (Inr (Visited new, s')) \<and> progress_inv g st e algo k s'"
proof -
  from pi have si: "search_inv g st e algo s" and sol: "solving s" and np: "\<not> paused s"
    and cl: "closed_but g (parents s) (cells_of (search_nodes s))"
    and td: "todo g st (parents s) (cells_of (search_nodes s)) = Suc k"
    by (simp_all add: progress_inv_def)
  from si have wf: "wf_grid g" and m: "maze s = Some g" and e: "end_point s = Some e"
    by (simp_all add: search_inv_def)
  from al have a: "animate algo = animate_dfs" by (simp add: animate_def)
  have cells: "cells_of (search_nodes s) = q" unfolding q cells_of_def by simp
  from progress_nonempty[OF pi] have qn: "q \<noteq> []" unfolding cells .
  from e ne have ne': "end_point s \<noteq> Some (last q)" by simp
  from animate_dfs_expand[OF wf m sol np q qn ne', of now]
  have eq: "animate algo now s = Some (Inr (Visited new, s'))" unfolding a new s' by simp
  from search_inv_step[OF si, of now] eq have si': "search_inv g st e algo s'" by auto
  from search_inv_parts[OF si] have sub: "\<forall>v. parents s v \<noteq> None \<longrightarrow> reach g st v"
    and rec: "\<forall>v \<in> set (cells_of (search_nodes s)). parents s v \<noteq> None"
    by blast+
  from rec qn have pu: "parents s (last q) \<noteq> None" unfolding cells by simp
  have len: "Suc (length (butlast q)) = length q" using qn by simp
  have keep: "set q \<subseteq> insert (last q) (set (butlast q))"
  proof
    fix x assume "x \<in> set q"
    then have "x \<in> set (butlast q @ [last q])" using qn by simp
    then show "x \<in> insert (last q) (set (butlast q))" by auto
  qed
  have "closed_but g (adopt (parents s) (last q) new) (butlast q @ new)
         \<and> Suc (todo g st (adopt (parents s) (last q) new) (butlast q @ new))
             = todo g st (parents s) q"
    by (rule expand_todo[OF sub cl[unfolded cells] pu len keep new])
  with td cells have "closed_but g (parents s') (cells_of (search_nodes s'))"
    "todo g st (parents s') (cells_of (search_nodes s')) = k"
    unfolding s' by (simp_all add: cells_of_def)
  with si' sol np have "progress_inv g st e algo k s'"
    unfolding progress_inv_def by (simp add: s' order_inv_def)
  with eq show ?thesis by blast
qed

lemma dijkstra_progress:
  assumes pi: "progress_inv g st e algo (Suc k) s" and q: "search_nodes s = Costs (x # xs)"
    and pop: "least x xs = (c, u)" and ne: "e \<noteq> u"
    and new: "new = fresh g (parents s) (nbrs u directions)"
    and s': "s' = s\<lparr>search_nodes := Costs (remove1 (c, u) (x # xs) @ map (\<lambda>n. (c + 1, n)) new),
                     parents := adopt (parents s) u new,
                     distances := settle (distances s) (c + 1) new\<rparr>"
  shows "animate algo now s = Some (Inr (Visited new, s')) \<and> progress_inv g st e algo k s'"
proof -
  define h where "h = x # xs"
  define rest where "rest = remove1 (c, u) h"
  note q = q[folded h_def]
  from pi have si: "search_inv g st e algo s" and sol: "solving s" and np: "\<not> paused s"
    and oi: "order_inv e st s"
    and cl: "closed_but g (parents s) (cells_of (search_nodes s))"
    and td: "todo g st (parents s) (cells_of (search_nodes s)) = Suc k"
    by (simp_all add: progress_inv_def)
  from si have wf: "wf_grid g" and m: "maze s = Some g" and e: "end_point s = Some e"
    by (simp_all add: search_inv_def)
  from si q have al: "algo = ''Dijkstra''"
    and ci: "cost_inv g st (distances s) (parents s) h"
    by (simp_all add: search_inv_def)
  from al have a: "animate algo = animate_dijkstra" by (simp add: animate_def)
  from oi q have mi: "mono_inv (\<lambda>_. 0) st (distances s) (parents s) (map twice h)"
    by (simp add: order_inv_def)
  have ci': "cost_inv g st (distances s) (parents s) (map snd (map twice h))"
    using ci by (simp only: map_snd_twice)
  have uh: "(c, u) \<in> set h" using least_in[of x xs] pop unfolding h_def by simp
  then have hpos: "0 < length h" by (rule length_pos_if_in_set)
  have "twice (c, u) \<in> twice ` set h" using uh by (rule imageI)
  then have uT: "(c, c, u) \<in> set (map twice h)" by (simp add: twice_def)
  have least: "\<forall>t \<in> set (map twice h). lexle (c, c) (fst t, fst (snd t))"
  proof
    fix t assume "t \<in> set (map twice h)"
    then have "t \<in> twice ` set h" by simp
    then obtain y where y: "y \<in> set h" and t: "t = twice y" by blast
    obtain c' v where yv: "y = (c', v)" by (cases y)
    from least_le[OF y[unfolded h_def]] pop yv have "(c, u) \<le> (c', v)" by simp
    from lexle_pair[OF this] show "lexle (c, c) (fst t, fst (snd t))"
      unfolding t yv twice_def by simp
  qed
  have imp: "improved g (distances s) (c + 1) (nbrs u directions) = new"
    unfolding new by (rule improved_fresh[OF ci' mi lipschitz_zero uT least])
  have hp: "heappop x xs = ((c, u), rest)" by (simp add: heappop_eq pop rest_def h_def)
  from e ne have ne': "end_point s \<noteq> Some u" by simp
  from animate_dijkstra_expand[OF wf m sol np q[unfolded h_def] hp ne' imp[symmetric], of now]
  have eq: "animate algo now s = Some (Inr (Visited new, s'))"
    unfolding a s' rest_def h_def by simp
  from search_inv_step[OF si, of now] eq have si': "search_inv g st e algo s'" by auto
  have rest_t: "map twice rest = remove1 (c, c, u) (map twice h)"
    unfolding rest_def map_remove1_inj[OF inj_twice] by (simp add: twice_def)
  have new_t: "map twice (map (\<lambda>n. (c + 1, n)) new) = map (\<lambda>n. (c + 1 + 0, c + 1, n)) new"
    by (simp add: twice_def)
  from mono_inv_step[OF ci' mi lipschitz_zero uT least rest_t new]
  have "mono_inv (\<lambda>_. 0) st (settle (distances s) (c + 1) new) (adopt (parents s) u new)
          (map twice (rest @ map (\<lambda>n. (c + 1, n)) new))"
    unfolding map_append new_t .
  then have oi': "order_inv e st s'" unfolding s' rest_def h_def by (simp add: order_inv_def)
  from search_inv_parts[OF si] have sub: "\<forall>v. parents s v \<noteq> None \<longrightarrow> reach g st v"
    and rec: "\<forall>v \<in> set (cells_of (search_nodes s)). parents s v \<noteq> None"
    by blast+
  have cells: "cells_of (search_nodes s) = map snd h" unfolding q cells_of_def by simp
  from uh have "u \<in> set (map snd h)" by force
  with rec have pu: "parents s u \<noteq> None" unfolding cells by blast
  have len: "Suc (length (map snd rest)) = length (map snd h)"
    using uh hpos by (simp add: length_remove1 rest_def)
  have keep: "set (map snd h) \<subseteq> insert u (set (map snd rest))"
  proof
    fix v assume "v \<in> set (map snd h)"
    then obtain c' where "(c', v) \<in> set h" by auto
    with set_remove1_keep[of h "(c, u)"] have "(c', v) = (c, u) \<or> (c', v) \<in> set rest"
      unfolding rest_def by blast
    then show "v \<in> insert u (set (map snd rest))" by force
  qed
  have "closed_but g (adopt (parents s) u new) (map snd rest @ new)
         \<and> Suc (todo g st (adopt (parents s) u new) (map snd rest @ new))
             = todo g st (parents s) (map snd h)"
    by (rule expand_todo[OF sub cl[unfolded cells] pu len keep new])
  moreover have "cells_of (search_nodes s') = map snd rest @ new"
    unfolding s' rest_def h_def by (simp add: cells_of_def comp_def)
  moreover have "parents s' = adopt (parents s) u new" unfolding s' by simp
  ultimately have "closed_but g (parents s') (cells_of (search_nodes s'))"
    "todo g st (parents s') (cells_of (search_nodes s')) = k"
    using td cells by simp_all
  moreover have "solving s'" "\<not> paused s'" using sol np unfolding s' by simp_all
  ultimately have "progress_inv g st e algo k s'"
    using si' oi' unfolding progress_inv_def by simp
  with eq show ?thesis by blast
qed

lemma astar_progress:
  assumes pi: "progress_inv g st e algo (Suc k) s" and q: "search_nodes s = FCosts (x # xs)"
    and pop: "least x xs = (f, c, u)" and ne: "e \<noteq> u"
    and new: "new = fresh g (parents s) (nbrs u directions)"
    and s': "s' = s\<lparr>search_nodes := FCosts (remove1 (f, c, u) (x # xs)
                                             @ map (\<lambda>n. (c + 1 + manhattan n e, c + 1, n)) new),
                     parents := adopt (parents s) u new,
                     distances := settle (distances s) (c + 1) new\<rparr>"
  shows "animate algo now s = Some (Inr (Visited new, s')) \<and> progress_inv g st e algo k s'"
proof -
  define h where "h = x # xs"
  define rest where "rest = remove1 (f, c, u) h"
  note q = q[folded h_def]
  from pi have si: "search_inv g st e algo s" and sol: "solving s" and np: "\<not> paused s"
    and oi: "order_inv e st s"
    and cl: "closed_but g (parents s) (cells_of (search_nodes s))"
    and td: "todo g st (parents s) (cells_of (search_nodes s)) = Suc k"
    by (simp_all add: progress_inv_def)
  from si have wf: "wf_grid g" and m: "maze s = Some g" and e: "end_point s = Some e"
    by (simp_all add: search_inv_def)
  from si q have al: "algo = ''A*''"
    and ci: "cost_inv g st (distances s) (parents s) (map snd h)"
    by (simp_all add: search_inv_def)
  from al have a: "animate algo = animate_astar" by (simp add: animate_def)
  from oi q have mi: "mono_inv (\<lambda>n. manhattan n e) st (distances s) (parents s) h"
    by (simp add: order_inv_def)
  have uh: "(f, c, u) \<in> set h" using least_in[of x xs] pop unfolding h_def by simp
  then have hpos: "0 < length h" by (rule length_pos_if_in_set)
  have least: "\<forall>t \<in> set h. lexle (f, c) (fst t, fst (snd t))"
  proof
    fix t assume t: "t \<in> set h"
    obtain f' c' v where tv: "t = (f', c', v)" by (cases t)
    from least_le[OF t[unfolded h_def]] pop tv have "(f, c, u) \<le> (f', c', v)" by simp
    from lexle_triple[OF this] show "lexle (f, c) (fst t, fst (snd t))" unfolding tv by simp
  qed
  have imp: "improved g (distances s) (c + 1) (nbrs u directions) = new"
    unfolding new by (rule improved_fresh[OF ci mi lipschitz_manhattan uh least])
  have hp: "heappop x xs = ((f, c, u), rest)" by (simp add: heappop_eq pop rest_def h_def)
  from animate_astar_expand[OF wf m sol np q[unfolded h_def] hp e ne imp[symmetric], of now]
  have eq: "animate algo now s = Some (Inr (Visited new, s'))"
    unfolding a s' rest_def h_def by simp
  from search_inv_step[OF si, of now] eq have si': "search_inv g st e algo s'" by auto
  from mono_inv_step[OF ci mi lipschitz_manhattan uh least rest_def new]
  have "mono_inv (\<lambda>n. manhattan n e) st (settle (distances s) (c + 1) new)
          (adopt (parents s) u new)
          (rest @ map (\<lambda>n. (c + 1 + manhattan n e, c + 1, n)) new)" .
  then have oi': "order_inv e st s'" unfolding s' rest_def h_def by (simp add: order_inv_def)
  from search_inv_parts[OF si] have sub: "\<forall>v. parents s v \<noteq> None \<longrightarrow> reach g st v"
    and rec: "\<forall>v \<in> set (cells_of (search_nodes s)). parents s v \<noteq> None"
    by blast+
  let ?cell = "\<lambda>t :: int \<times> int \<times> coord. snd (snd t)"
  have cells: "cells_of (search_nodes s) = map ?cell h" unfolding q cells_of_def by simp
  from uh have "u \<in> set (map ?cell h)" by force
  with rec have pu: "parents s u \<noteq> None" unfolding cells by blast
  have len: "Suc (length (map ?cell rest)) = length (map ?cell h)"
    using uh hpos by (simp add: length_remove1 rest_def)
  have keep: "set (map ?cell h) \<subseteq> insert u (set (map ?cell rest))"
  proof
    fix v assume "v \<in> set (map ?cell h)"
    then obtain f' c' where "(f', c', v) \<in> set h" by auto
    with set_remove1_keep[of h "(f, c, u)"]
    have "(f', c', v) = (f, c, u) \<or> (f', c', v) \<in> set rest" unfolding rest_def by blast
    then show "v \<in> insert u (set (map ?cell rest))" by force
  qed
  have "closed_but g (adopt (parents s) u new) (map ?cell rest @ new)
         \<and> Suc (todo g st (adopt (parents s) u new) (map ?cell rest @ new))
             = todo g st (parents s) (map ?cell h)"
    by (rule expand_todo[OF sub cl[unfolded cells] pu len keep new])
  moreover have "cells_of (search_nodes s') = map ?cell rest @ new"
    unfolding s' rest_def h_def by (simp add: cells_of_def comp_def)
  moreover have "parents s' = adopt (parents s) u new" unfolding s' by simp
  ultimately have "closed_but g (parents s') (cells_of (search_nodes s'))"
    "todo g st (parents s') (cells_of (search_nodes s')) = k"
    using td cells by simp_all
  moreover have "solving s'" "\<not> paused s'" using sol np unfolding s' by simp_all
  ultimately have "progress_inv g st e algo k s'"
    using si' oi' unfolding progress_inv_def by simp
  with eq show ?thesis by blast
qed

section \<open>A search that cannot reach the end point\<close>

lemma exhaust_step:
  assumes pi: "progress_inv g st e algo (Suc k) s" and un: "\<not> reach g st e"
  shows "\<exists>vs s'. animate algo now s = Some (Inr (Visited vs, s')) \<and> progress_inv g st e algo k s'"
proof -
  from pi have si: "search_inv g st e algo s" by (simp add: progress_inv_def)
  from search_inv_parts[OF si] have sub: "\<forall>v. parents s v \<noteq> None \<longrightarrow> reach g st v"
    and rec: "\<forall>v \<in> set (cells_of (search_nodes s)). parents s v \<noteq> None"
    by blast+
  have far: "\<And>u. u \<in> set (cells_of (search_nodes s)) \<Longrightarrow> e \<noteq> u"
  proof
    fix u assume "u \<in> set (cells_of (search_nodes s))" and "e = u"
    with rec sub have "reach g st e" by blast
    with un show False by simp
  qed
  from progress_nonempty[OF pi] have ne: "cells_of (search_nodes s) \<noteq> []" .
  show ?thesis
  proof (cases "search_nodes s")
    case (Cells q)
    then have cells: "cells_of (search_nodes s) = q" by (simp add: cells_of_def)
    from ne cells have qn: "q \<noteq> []" by simp
    show ?thesis
    proof (cases "algo = ''DFS''")
      case True
      from qn have "last q \<in> set q" by simp
      from far[unfolded cells, OF this] have "e \<noteq> last q" .
      from dfs_progress[OF pi Cells True this refl refl, of now] show ?thesis by blast
    next
      case False
      from qn obtain u rest where q: "q = u # rest" by (cases q) auto
      then have "u \<in> set q" by simp
      from far[unfolded cells, OF this] have "e \<noteq> u" .
      from bfs_progress[OF pi Cells[unfolded q] False this refl refl, of now] show ?thesis by blast
    qed
  next
    case (Costs h)
    then have cells: "cells_of (search_nodes s) = map snd h" by (simp add: cells_of_def)
    from ne cells obtain x xs where h: "h = x # xs" by (cases h) auto
    obtain c u where pop: "least x xs = (c, u)" by (cases "least x xs")
    from least_in[of x xs] pop have "(c, u) \<in> set h" unfolding h by simp
    then have "u \<in> set (map snd h)" by force
    from far[unfolded cells, OF this] have "e \<noteq> u" .
    from dijkstra_progress[OF pi Costs[unfolded h] pop this refl refl, of now] show ?thesis by blast
  next
    case (FCosts h)
    then have cells: "cells_of (search_nodes s) = map (\<lambda>t. snd (snd t)) h"
      by (simp add: cells_of_def)
    from ne cells obtain x xs where h: "h = x # xs" by (cases h) auto
    obtain f c u where pop: "least x xs = (f, c, u)" by (cases "least x xs")
    from least_in[of x xs] pop have "(f, c, u) \<in> set h" unfolding h by simp
    then have "u \<in> set (map (\<lambda>t. snd (snd t)) h)" by force
    from far[unfolded cells, OF this] have "e \<noteq> u" .
    from astar_progress[OF pi FCosts[unfolded h] pop this refl refl, of now] show ?thesis by blast
  qed
qed

lemma solve_then_run_eq:
  assumes "maze s0 = Some g" and "start_point s0 = Some st" and "end_point s0 = Some e"
  shows "solve_then_run now now' acts s0
         = run (animate (algorithm_var s0)) (Tick now' # acts) (begin_search now st s0)"
  using assms
  by (simp add: solve_then_run_def on_solve_maze_def split: option.splits sum.splits prod.splits)

lemma progress_done:
  assumes "progress_inv g st e algo 0 s"
  shows "cells_of (search_nodes s) = []"
  using assms by (simp add: progress_inv_def todo_def)

lemma islands_passage: "passage islands c = (c = (1, 1) \<or> c = (3, 3))"
proof
  assume p: "passage islands c"
  obtain x y where c: "c = (x, y)" by (cases c)
  from p have b: "0 \<le> x" "x < 5" "0 \<le> y" "y < 5" unfolding c passage_def islands_def by simp_all
  then have "x \<in> {0, 1, 2, 3, 4}" "y \<in> {0, 1, 2, 3, 4}" by auto
  with p show "c = (1, 1) \<or> c = (3, 3)" unfolding c passage_def islands_def by auto
next
  assume "c = (1, 1) \<or> c = (3, 3)"
  then show "passage islands c" by (auto simp: passage_def islands_def)
qed

lemma islands_reach: "reach islands (1, 1) c = (c = (1, 1))"
proof
  assume r: "reach islands (1, 1) c"
  have "c \<in> {(1, 1)}"
  proof (rule reach_closed[OF r])
    show "(1, 1) \<in> {(1 :: int, 1 :: int)}" by simp
  next
    fix a d :: coord assume "a \<in> {(1, 1)}" and "adjacent a d" and "passage islands d"
    then show "d \<in> {(1, 1)}" by (auto simp: islands_passage adjacent_def)
  qed
  then show "c = (1, 1)" by simp
next
  assume "c = (1, 1)"
  then show "reach islands (1, 1) c" by (simp add: reach_start)
qed

lemma islands_region: "card {c. passage islands c \<and> reach islands (1, 1) c} = 1"
proof -
  have "{c. passage islands c \<and> reach islands (1, 1) c} = {(1, 1)}"
    by (auto simp: islands_reach islands_passage)
  then show ?thesis by simp
qed

text \<open>
  C7 (amended). When the end point cannot be reached from the start through passage cells,
  each of the four searches shows "No path found!" within a finite number of steps, bounded
  by the number of passage cells reachable from the start (the start included) plus one.
  The bound is met exactly: each of that many steps takes one cell from the frontier and
  paints its new neighbours, and the step after them finds the frontier empty. The first
  step is the one \<open>on_solve_maze\<close> runs itself.
\<close>

theorem exhausted_after_reachable_cells:
  assumes "maze s0 = Some g" and "wf_grid g" and "start_point s0 = Some st"
    and "end_point s0 = Some e" and "passage g st" and "\<not> paused s0"
    and "\<not> reach g st e"
    and "length ts = card {c. passage g c \<and> reach g st c}"
  shows "\<exists>vss s. solve_then_run now now' (map Tick ts) s0
                     = Some (Inr (map Visited vss @ [NoSolution], s))
               \<and> length vss = card {c. passage g c \<and> reach g st c}
               \<and> \<not> solving s \<and> cells_of (search_nodes s) = []"
proof -
  let ?algo = "algorithm_var s0"
  let ?R = "card {c. passage g c \<and> reach g st c}"
  have R: "card (region g st) = ?R" by (simp only: region_passages[OF assms(5)])
  have p0: "progress_inv g st e ?algo ?R (begin_search now st s0)"
    using progress_begin[OF assms(2,1,4,6), of st now] unfolding R .
  have len: "length (now' # ts) = Suc ?R" using assms(8) by simp
  have "\<exists>vss s'. run (animate ?algo) (map Tick (now' # ts)) (begin_search now st s0)
                    = Some (Inr (map Visited vss @ [NoSolution], s'\<lparr>solving := False\<rparr>))
                 \<and> length vss = ?R \<and> progress_inv g st e ?algo 0 s'"
  proof (rule countdown[where J = "progress_inv g st e ?algo", OF _ _ p0 len])
    fix t s k assume "progress_inv g st e ?algo (Suc k) s"
    from exhaust_step[OF this assms(7), of t]
    show "\<exists>vs s'. animate ?algo t s = Some (Inr (Visited vs, s')) \<and> progress_inv g st e ?algo k s'" .
  next
    fix t s assume "progress_inv g st e ?algo 0 s"
    then show "animate ?algo t s = Some (Inr (NoSolution, s\<lparr>solving := False\<rparr>))"
      by (rule progress_stop)
  qed
  then obtain vss s' where
    r: "run (animate ?algo) (map Tick (now' # ts)) (begin_search now st s0)
          = Some (Inr (map Visited vss @ [NoSolution], s'\<lparr>solving := False\<rparr>))"
    and l: "length vss = ?R" and d: "progress_inv g st e ?algo 0 s'"
    by blast
  from solve_then_run_eq[OF assms(1,3,4), of now now' "map Tick ts"] r
  have "solve_then_run now now' (map Tick ts) s0
          = Some (Inr (map Visited vss @ [NoSolution], s'\<lparr>solving := False\<rparr>))"
    by simp
  moreover have "\<not> solving (s'\<lparr>solving := False\<rparr>)" by simp
  moreover have "cells_of (search_nodes (s'\<lparr>solving := False\<rparr>)) = []"
    using progress_done[OF d] by simp
  ultimately show ?thesis using l by blast
qed

theorem exhausted_after_reachable_cells_witness:
  "maze (ready islands (1, 1) (3, 3) ''A*'') = Some islands \<and> wf_grid islands
   \<and> start_point (ready islands (1, 1) (3, 3) ''A*'') = Some (1, 1)
   \<and> end_point (ready islands (1, 1) (3, 3) ''A*'') = Some (3, 3)
   \<and> passage islands (1, 1) \<and> \<not> paused (ready islands (1, 1) (3, 3) ''A*'')
   \<and> \<not> reach islands (1, 1) (3, 3)
   \<and> length [1 :: real] = card {c. passage islands c \<and> reach islands (1, 1) c}
   \<and> (\<exists>vss s. solve_then_run 0 0 (map Tick [1]) (ready islands (1, 1) (3, 3) ''A*'')
                    = Some (Inr (map Visited vss @ [NoSolution], s))
              \<and> length vss = 1 \<and> \<not> solving s \<and> cells_of (search_nodes s) = [])"
proof -
  let ?S = "ready islands (1, 1) (3, 3) ''A*''"
  have f: "maze ?S = Some islands" "start_point ?S = Some (1, 1)" "end_point ?S = Some (3, 3)"
    "\<not> paused ?S"
    by (simp_all add: ready_def)
  have wf: "wf_grid islands" by (simp add: wf_grid_def islands_def)
  have p: "passage islands (1, 1)" by (simp add: islands_passage)
  have un: "\<not> reach islands (1, 1) (3, 3)" by (simp add: islands_reach)
  have len: "length [1 :: real] = card {c. passage islands c \<and> reach islands (1, 1) c}"
    by (simp add: islands_region)
  from exhausted_after_reachable_cells[OF f(1) wf f(2,3) p f(4) un len, of 0 0]
  have "\<exists>vss s. solve_then_run 0 0 (map Tick [1]) ?S
                    = Some (Inr (map Visited vss @ [NoSolution], s))
              \<and> length vss = 1 \<and> \<not> solving s \<and> cells_of (search_nodes s) = []"
    by (simp only: islands_region)
  with f wf p un len show ?thesis by (intro conjI)
qed

text \<open>The claim as stated bounds the number of steps by the number of passage cells
  reachable from the start. On the grid whose passage cells (1,1) and (3,3) are walled off
  from each other, with start (1,1) and end (3,3), one passage cell is reachable from the
  start; after one step each of the four searches has painted nothing and is still running,
  and "No path found!" comes with the second step.\<close>

theorem exhausted_needs_one_more_step:
  "card {c. passage islands c \<and> reach islands (1, 1) c} = 1 \<and> \<not> reach islands (1, 1) (3, 3)
   \<and> painted (solve_then_run 0 0 [] (ready islands (1, 1) (3, 3) ''BFS'')) = Some (Inr [Visited []])
   \<and> painted (solve_then_run 0 0 [] (ready islands (1, 1) (3, 3) ''DFS'')) = Some (Inr [Visited []])
   \<and> painted (solve_then_run 0 0 [] (ready islands (1, 1) (3, 3) ''Dijkstra'')) = Some (Inr [Visited []])
   \<and> painted (solve_then_run 0 0 [] (ready islands (1, 1) (3, 3) ''A*'')) = Some (Inr [Visited []])
   \<and> painted (solve_then_run 0 0 [Tick 1] (ready islands (1, 1) (3, 3) ''BFS''))
       = Some (Inr [Visited [], NoSolution])
   \<and> painted (solve_then_run 0 0 [Tick 1] (ready islands (1, 1) (3, 3) ''DFS''))
       = Some (Inr [Visited [], NoSolution])
   \<and> painted (solve_then_run 0 0 [Tick 1] (ready islands (1, 1) (3, 3) ''Dijkstra''))
       = Some (Inr [Visited [], NoSolution])
   \<and> painted (solve_then_run 0 0 [Tick 1] (ready islands (1, 1) (3, 3) ''A*''))
       = Some (Inr [Visited [], NoSolution])"
proof -
  have un: "\<not> reach islands (1, 1) (3, 3)" by (simp add: islands_reach)
  have a: "painted (solve_then_run 0 0 [] (ready islands (1, 1) (3, 3) ''BFS'')) = Some (Inr [Visited []])"
    "painted (solve_then_run 0 0 [] (ready islands (1, 1) (3, 3) ''DFS'')) = Some (Inr [Visited []])"
    "painted (solve_then_run 0 0 [] (ready islands (1, 1) (3, 3) ''Dijkstra'')) = Some (Inr [Visited []])"
    "painted (solve_then_run 0 0 [] (ready islands (1, 1) (3, 3) ''A*'')) = Some (Inr [Visited []])"
    by code_simp+
  have b: "painted (solve_then_run 0 0 [Tick 1] (ready islands (1, 1) (3, 3) ''BFS''))
       = Some (Inr [Visited [], NoSolution])"
    "painted (solve_then_run 0 0 [Tick 1] (ready islands (1, 1) (3, 3) ''DFS''))
       = Some (Inr [Visited [], NoSolution])"
    "painted (solve_then_run 0 0 [Tick 1] (ready islands (1, 1) (3, 3) ''Dijkstra''))
       = Some (Inr [Visited [], NoSolution])"
    "painted (solve_then_run 0 0 [Tick 1] (ready islands (1, 1) (3, 3) ''A*''))
       = Some (Inr [Visited [], NoSolution])"
    by code_simp+
  from islands_region un a b show ?thesis by (intro conjI)
qed

end
